theory Spec2Isabelle
  imports Complex_Main "HOL-Library.Word"
begin

unbundle bit_operations_syntax

section \<open>Data model of the Pangolin viewer (pangolin\_dso\_viewer.cc)\<close>

text \<open>
  A \<open>KeyFrameDisplay*\<close> is an address; 0 is the null pointer.  The objects themselves
  live in a heap, a partial map from addresses to objects.  The class KeyFrameDisplay is
  declared in keyframe\_display.h, which is not part of the sources: its objects are values
  of a type variable \<open>'k\<close>, and the member functions the viewer calls on them are taken as
  parameters (record \<open>ext\<close> below).
\<close>

type_synonym addr = nat

type_synonym Vector2i = "int \<times> int"

text \<open>
  \<open>std::map<uint64_t, Eigen::Vector2i>\<close>: the entries in the order the map iterates them
  (ascending keys).  \<open>connectivity.at(k)\<close> is \<open>map_of\<close>, \<open>connectivity.size()\<close> is
  \<open>length\<close>.
\<close>

type_synonym connectivity = "(64 word \<times> Vector2i) list"

definition wf_connectivity :: "connectivity \<Rightarrow> bool" where
  "wf_connectivity c = sorted_wrt (<) (map fst c)"

text \<open>
  struct GraphConnection (keyframe\_display.h): the six members that publishGraph writes
  and drawConstraints reads.
\<close>

record GraphConnection =
  gc_from :: addr
  gc_to :: addr
  fwdMarg :: int
  bwdMarg :: int
  fwdAct :: int
  bwdAct :: int

datatype check = CHECK_GE_host | CHECK_GE_target | CHECK_EQ_second0 | CHECK_EQ_second1

text \<open>
  How a call can end other than by returning: a failed glog CHECK (fatal), the
  \<open>std::out_of_range\<close> of \<open>std::map::at\<close>, a read or write outside an object
  (undefined behaviour in C++), and the \<open>exit(1)\<close> that ends \<open>run\<close>.
\<close>

datatype error = FatalCheck check | OutOfRange | UndefinedBehaviour | ProcessExit

definition bindE :: "error + 'a \<Rightarrow> ('a \<Rightarrow> error + 'b) \<Rightarrow> error + 'b" where
  "bindE m f = (case m of Inl e \<Rightarrow> Inl e | Inr x \<Rightarrow> f x)"

text \<open>An RGB pixel (Vec3b) and an image (MinimalImageB3: \<open>w * h\<close> pixels, row major).\<close>

type_synonym Vec3b = "8 word \<times> 8 word \<times> 8 word"
type_synonym MinimalImageB3 = "Vec3b list"

record timeval =
  tv_sec :: int
  tv_usec :: int

text \<open>The globals of util/settings.h that the viewer reads and writes.\<close>

record globals =
  disableAllDisplay :: bool
  setting_render_display3D :: bool
  setting_render_displayDepth :: bool
  setting_render_displayVideo :: bool
  setting_render_displayResidual :: bool
  setting_render_renderWindowFrames :: bool
  setting_render_plotTrackingFull :: bool
  setting_render_displayCoarseTrackingFull :: bool
  setting_desiredPointDensity :: int
  setting_desiredImmatureDensity :: int
  setting_maxFrames :: int
  setting_kfGlobalWeight :: real
  setting_minGradHistAdd :: real
  setting_fullResetRequested :: bool

text \<open>The members \<open>this->settings_...\<close> of the viewer.\<close>

record view_settings =
  settings_pointCloudMode :: int
  settings_showKFCameras :: bool
  settings_showCurrentCamera :: bool
  settings_showTrajectory :: bool
  settings_showFullTrajectory :: bool
  settings_showActiveConstraints :: bool
  settings_showAllConstraints :: bool
  settings_absVarTH :: real
  settings_scaledVarTH :: real
  settings_minRelBS :: real
  settings_sparsity :: int

text \<open>
  The viewer object together with the globals and the heap of KeyFrameDisplay objects.
  \<open>'k\<close> is KeyFrameDisplay, \<open>'v\<close> is \<open>Sophus::Vector3f\<close>.  The sizes \<open>w\<close> and \<open>h\<close>
  are not negative.  \<open>operator new\<close> is modelled as an allocator that hands out
  \<open>heap_next\<close> and never reuses an address.  \<open>float\<close> values are reals; the
  rounding of each float operation is the parameter \<open>fl\<close> of \<open>ext\<close>.
\<close>

record ('k, 'v) viewer =
  w :: nat
  h :: nat
  running :: bool
  internalVideoImg :: MinimalImageB3
  internalKFImg :: MinimalImageB3
  internalResImg :: MinimalImageB3
  videoImgChanged :: bool
  kfImgChanged :: bool
  resImgChanged :: bool
  currentCam :: addr
  needReset :: bool
  keyframes :: "addr list"
  keyframesByKFID :: "int \<rightharpoonup> addr"
  allFramePoses :: "'v list"
  connections :: "GraphConnection list"
  lastNTrackingMs :: "real list"
  lastNMappingMs :: "real list"
  last_track :: timeval
  last_map :: timeval
  vsettings :: view_settings
  glob :: globals
  heap :: "addr \<rightharpoonup> 'k"
  heap_next :: addr

text \<open>
  FrameHessian (hessian\_blocks.h, not part of the sources): the members the viewer reads
  itself, \<open>frameID\<close> and the intensities \<open>dI[i][0]\<close>; the rest of the frame is
  \<open>fh_rest\<close>, read only by \<open>setFromKF\<close>.
\<close>

record 'a FrameHessian =
  frameID :: int
  dI :: "real list"
  fh_rest :: 'a

text \<open>
  What the viewer uses and the sources do not contain: the constructor and the member
  functions of KeyFrameDisplay (keyframe\_display.cc), the value-initialised
  GraphConnection, the translation of a pose as a Vector3f, and the rounding of a real to
  the nearest \<open>float\<close> (\<open>fl\<close>) and \<open>double\<close> (\<open>dbl\<close>).  \<open>'sh\<close> is FrameShell,
  \<open>'c\<close> is CalibHessian.  \<open>refreshPC\<close> returns whether it refreshed, and the object.
\<close>

record ('k, 'a, 'sh, 'c, 'v) ext =
  new_KeyFrameDisplay :: 'k
  new_GraphConnection :: GraphConnection
  setFromKF :: "'a FrameHessian \<Rightarrow> 'c \<Rightarrow> 'k \<Rightarrow> 'k"
  setFromF :: "'sh \<Rightarrow> 'c \<Rightarrow> 'k \<Rightarrow> 'k"
  refreshPC :: "bool \<Rightarrow> real \<Rightarrow> real \<Rightarrow> int \<Rightarrow> real \<Rightarrow> int \<Rightarrow> 'k \<Rightarrow> bool \<times> 'k"
  kf_translation :: "'k \<Rightarrow> 'v"
  shell_translation :: "'sh \<Rightarrow> 'v"
  fl :: "real \<Rightarrow> real"
  dbl :: "real \<Rightarrow> real"

section \<open>publishGraph\<close>

text \<open>\<open>int host = (int)(p.first >> 32); int target = (int)(p.first & 0xFFFFFFFF);\<close>\<close>

definition host_of :: "64 word \<Rightarrow> int" where
  "host_of key = sint (ucast (drop_bit 32 key) :: 32 word)"

definition target_of :: "64 word \<Rightarrow> int" where
  "target_of key = sint (ucast (key AND 0xFFFFFFFF) :: 32 word)"

text \<open>\<open>(((uint64_t)target) << 32) + ((uint64_t)host)\<close>\<close>

definition inverseKey :: "int \<Rightarrow> int \<Rightarrow> 64 word" where
  "inverseKey host target = push_bit 32 (word_of_int target) + word_of_int host"

text \<open>
  \<open>std::vector::resize(n)\<close>: the first \<open>n\<close> elements are kept, missing ones are
  value-initialised (\<open>dflt\<close>).
\<close>

definition resize_vec :: "'a \<Rightarrow> nat \<Rightarrow> 'a list \<Rightarrow> 'a list" where
  "resize_vec dflt n xs = take n xs @ replicate (n - length xs) dflt"

text \<open>The local variables of the loop of publishGraph, with the vector it writes.\<close>

record graph_acc =
  conns :: "GraphConnection list"
  runningID :: nat
  totalActFwd :: int
  totalActBwd :: int
  totalMargFwd :: int
  totalMargBwd :: int

text \<open>\<open>keyframesByKFID.count(id) == 0 ? 0 : keyframesByKFID[id]\<close>\<close>

definition lookup_kf :: "(int \<rightharpoonup> addr) \<Rightarrow> int \<Rightarrow> addr" where
  "lookup_kf byId i = (case byId i of None \<Rightarrow> 0 | Some a \<Rightarrow> a)"

text \<open>One iteration of the loop over the entries of the map (lines 388 to 422).\<close>

definition graph_step ::
  "connectivity \<Rightarrow> (int \<rightharpoonup> addr) \<Rightarrow> 64 word \<times> Vector2i \<Rightarrow> graph_acc \<Rightarrow> error + graph_acc" where
  "graph_step c byId p acc =
    (let host = host_of (fst p); target = target_of (fst p) in
     if host < 0 then Inl (FatalCheck CHECK_GE_host)
     else if target < 0 then Inl (FatalCheck CHECK_GE_target)
     else if host = target then
       (if fst (snd p) \<noteq> 0 then Inl (FatalCheck CHECK_EQ_second0)
        else if snd (snd p) \<noteq> 0 then Inl (FatalCheck CHECK_EQ_second1)
        else Inr acc)
     else if host > target then Inr acc
     else if length (conns acc) \<le> runningID acc then Inl UndefinedBehaviour
     else
       (case map_of c (inverseKey host target) of
          None \<Rightarrow> Inl OutOfRange
        | Some st \<Rightarrow>
            Inr (acc\<lparr>conns := (conns acc)[runningID acc :=
                        \<lparr>gc_from = lookup_kf byId host, gc_to = lookup_kf byId target,
                         fwdMarg = snd (snd p), bwdMarg = snd st,
                         fwdAct = fst (snd p), bwdAct = fst st\<rparr>],
                     runningID := runningID acc + 1,
                     totalActFwd := totalActFwd acc + fst (snd p),
                     totalActBwd := totalActBwd acc + fst st,
                     totalMargFwd := totalMargFwd acc + snd (snd p),
                     totalMargBwd := totalMargBwd acc + snd st\<rparr>)))"

fun graph_loop ::
  "connectivity \<Rightarrow> (int \<rightharpoonup> addr) \<Rightarrow> connectivity \<Rightarrow> graph_acc \<Rightarrow> error + graph_acc" where
  "graph_loop c byId [] acc = Inr acc"
| "graph_loop c byId (p # ps) acc =
     (case graph_step c byId p acc of Inl e \<Rightarrow> Inl e | Inr acc' \<Rightarrow> graph_loop c byId ps acc')"

definition graph_acc0 :: "GraphConnection list \<Rightarrow> graph_acc" where
  "graph_acc0 cs = \<lparr>conns = cs, runningID = 0, totalActFwd = 0, totalActBwd = 0,
                    totalMargFwd = 0, totalMargBwd = 0\<rparr>"

definition display3D_off :: "('k, 'v) viewer \<Rightarrow> bool" where
  "display3D_off s = (disableAllDisplay (glob s) \<or> \<not> setting_render_display3D (glob s))"

definition publishGraph ::
  "('k, 'a, 'sh, 'c, 'v) ext \<Rightarrow> ('k, 'v) viewer \<Rightarrow> connectivity \<Rightarrow> error + ('k, 'v) viewer" where
  "publishGraph E s c =
    (if display3D_off s then Inr s
     else
       (case graph_loop c (keyframesByKFID s) c
               (graph_acc0 (resize_vec (new_GraphConnection E) (length c) (connections s))) of
          Inl e \<Rightarrow> Inl e
        | Inr acc \<Rightarrow> Inr (s\<lparr>connections := conns acc\<rparr>)))"

section \<open>publishKeyframes\<close>

text \<open>
  The body of the loop of publishKeyframes (lines 434 to 439) for one frame: a frame
  identifier that \<open>find\<close> does not find gets a new KeyFrameDisplay, entered in the map
  and appended to the vector; then \<open>setFromKF\<close> is called on the object the map holds for
  the identifier.  Calling a member function through a pointer to no live object is
  undefined behaviour.
\<close>

definition upsert_keyframe ::
  "('k, 'a, 'sh, 'c, 'v) ext \<Rightarrow> 'c \<Rightarrow> 'a FrameHessian \<Rightarrow> ('k, 'v) viewer \<Rightarrow> error + ('k, 'v) viewer" where
  "upsert_keyframe E HCalib fh s =
    (let s1 = (case keyframesByKFID s (frameID fh) of
                 None \<Rightarrow>
                   (let kfd = heap_next s in
                    s\<lparr>heap := (heap s)(kfd \<mapsto> new_KeyFrameDisplay E),
                      heap_next := Suc kfd,
                      keyframesByKFID := (keyframesByKFID s)(frameID fh \<mapsto> kfd),
                      keyframes := keyframes s @ [kfd]\<rparr>)
               | Some _ \<Rightarrow> s)
     in case keyframesByKFID s1 (frameID fh) of
          None \<Rightarrow> Inl UndefinedBehaviour
        | Some p \<Rightarrow>
            (case heap s1 p of
               None \<Rightarrow> Inl UndefinedBehaviour
             | Some k \<Rightarrow> Inr (s1\<lparr>heap := (heap s1)(p \<mapsto> setFromKF E fh HCalib k)\<rparr>)))"

fun keyframes_loop ::
  "('k, 'a, 'sh, 'c, 'v) ext \<Rightarrow> 'c \<Rightarrow> 'a FrameHessian list \<Rightarrow> ('k, 'v) viewer \<Rightarrow> error + ('k, 'v) viewer" where
  "keyframes_loop E HCalib [] s = Inr s"
| "keyframes_loop E HCalib (fh # fhs) s =
     (case upsert_keyframe E HCalib fh s of
        Inl e \<Rightarrow> Inl e
      | Inr s' \<Rightarrow> keyframes_loop E HCalib fhs s')"

definition publishKeyframes ::
  "('k, 'a, 'sh, 'c, 'v) ext \<Rightarrow> ('k, 'v) viewer \<Rightarrow> 'a FrameHessian list \<Rightarrow> bool \<Rightarrow> 'c \<Rightarrow> error + ('k, 'v) viewer" where
  "publishKeyframes E s frames final HCalib =
    (if display3D_off s then Inr s else keyframes_loop E HCalib frames s)"

section \<open>The latency windows, publishCamPose and pushDepthImage\<close>

text \<open>
  \<open>(time_now.tv_sec - last.tv_sec) * 1000.0f + (time_now.tv_usec - last.tv_usec) / 1000.0f\<close>,
  every operation rounded to \<open>float\<close>.
\<close>

definition elapsed_ms :: "('k, 'a, 'sh, 'c, 'v) ext \<Rightarrow> timeval \<Rightarrow> timeval \<Rightarrow> real" where
  "elapsed_ms E time_now prev =
     fl E (fl E (fl E (real_of_int (tv_sec time_now - tv_sec prev)) * 1000)
           + fl E (fl E (real_of_int (tv_usec time_now - tv_usec prev)) / 1000))"

text \<open>
  \<open>lastN.emplace_back(d); if (lastN.size() > 10) lastN.pop_front();\<close> (lines 451 to 456
  and 494 to 499).
\<close>

definition push_window :: "real \<Rightarrow> real list \<Rightarrow> real list" where
  "push_window d win = (let win' = win @ [d] in if length win' > 10 then tl win' else win')"

text \<open>
  The rate shown by the render loop (lines 185 to 189 and 194 to 198):
  \<open>sd = 0; for (float d : lastN) sd += d; lastN.size() * 1000.0f / sd\<close>.  With
  \<open>sd = 0\<close> the float division gives an infinity or a NaN: \<open>None\<close>.
\<close>

definition window_sum :: "('k, 'a, 'sh, 'c, 'v) ext \<Rightarrow> real list \<Rightarrow> real" where
  "window_sum E win = foldl (\<lambda>sd d. fl E (sd + d)) 0 win"

definition window_rate :: "('k, 'a, 'sh, 'c, 'v) ext \<Rightarrow> real list \<Rightarrow> real option" where
  "window_rate E win =
     (let sd = window_sum E win in
      if sd = 0 then None
      else Some (fl E (fl E (fl E (real (length win)) * 1000) / sd)))"

text \<open>\<open>time_now\<close> is what \<open>gettimeofday\<close> returns.\<close>

definition publishCamPose ::
  "('k, 'a, 'sh, 'c, 'v) ext \<Rightarrow> ('k, 'v) viewer \<Rightarrow> 'sh \<Rightarrow> 'c \<Rightarrow> timeval \<Rightarrow> error + ('k, 'v) viewer" where
  "publishCamPose E s frame HCalib time_now =
    (if display3D_off s then Inr s
     else
       (let s1 = s\<lparr>lastNTrackingMs :=
                      push_window (elapsed_ms E time_now (last_track s)) (lastNTrackingMs s),
                    last_track := time_now\<rparr>
        in if \<not> setting_render_display3D (glob s1) then Inr s1
           else
             (case heap s1 (currentCam s1) of
                None \<Rightarrow> Inl UndefinedBehaviour
              | Some k \<Rightarrow>
                  Inr (s1\<lparr>heap := (heap s1)(currentCam s1 \<mapsto> setFromF E frame HCalib k),
                          allFramePoses := allFramePoses s1 @ [shell_translation E frame]\<rparr>))))"

definition needPushDepthImage :: "('k, 'v) viewer \<Rightarrow> bool" where
  "needPushDepthImage s = setting_render_displayDepth (glob s)"

text \<open>
  \<open>memcpy(internalKFImg->data, image->data, w * h * 3)\<close> copies the first \<open>w * h\<close>
  pixels; with fewer pixels on either side it reads or writes outside the buffer.
\<close>

definition pushDepthImage ::
  "('k, 'a, 'sh, 'c, 'v) ext \<Rightarrow> ('k, 'v) viewer \<Rightarrow> MinimalImageB3 \<Rightarrow> timeval \<Rightarrow> error + ('k, 'v) viewer" where
  "pushDepthImage E s img time_now =
    (if disableAllDisplay (glob s) \<or> \<not> setting_render_displayDepth (glob s) then Inr s
     else
       (let s1 = s\<lparr>lastNMappingMs :=
                      push_window (elapsed_ms E time_now (last_map s)) (lastNMappingMs s),
                    last_map := time_now\<rparr>
        in if length img < w s1 * h s1 \<or> length (internalKFImg s1) < w s1 * h s1
           then Inl UndefinedBehaviour
           else Inr (s1\<lparr>internalKFImg :=
                           take (w s1 * h s1) img @ drop (w s1 * h s1) (internalKFImg s1),
                         kfImgChanged := True\<rparr>)))"

section \<open>pushLiveFrame\<close>

text \<open>
  The conversion of a \<open>double\<close> to \<open>unsigned char\<close> truncates towards zero and is
  undefined when the truncated value is not in 0..255.
\<close>

definition uchar_of :: "real \<Rightarrow> error + 8 word" where
  "uchar_of v =
     (if v \<le> - 1 \<or> 256 \<le> v then Inl UndefinedBehaviour
      else Inr (word_of_int (if 0 \<le> v then \<lfloor>v\<rfloor> else \<lceil>v\<rceil>)))"

text \<open>\<open>image->dI[i][0] * 0.8 > 255.0f ? 255.0 : image->dI[i][0] * 0.8\<close>, in \<open>double\<close>.\<close>

definition live_pixel :: "('k, 'a, 'sh, 'c, 'v) ext \<Rightarrow> real \<Rightarrow> error + Vec3b" where
  "live_pixel E x =
     (let v = dbl E (x * dbl E (8 / 10)) in
      case uchar_of (if v > 255 then 255 else v) of
        Inl e \<Rightarrow> Inl e
      | Inr c \<Rightarrow> Inr (c, c, c))"

fun live_pixels :: "('k, 'a, 'sh, 'c, 'v) ext \<Rightarrow> real list \<Rightarrow> error + Vec3b list" where
  "live_pixels E [] = Inr []"
| "live_pixels E (x # xs) =
     (case live_pixel E x of
        Inl e \<Rightarrow> Inl e
      | Inr p \<Rightarrow> (case live_pixels E xs of Inl e \<Rightarrow> Inl e | Inr ps \<Rightarrow> Inr (p # ps)))"

definition pushLiveFrame ::
  "('k, 'a, 'sh, 'c, 'v) ext \<Rightarrow> ('k, 'v) viewer \<Rightarrow> 'a FrameHessian \<Rightarrow> error + ('k, 'v) viewer" where
  "pushLiveFrame E s img =
    (if disableAllDisplay (glob s) \<or> \<not> setting_render_displayVideo (glob s) then Inr s
     else if length (dI img) < w s * h s \<or> length (internalVideoImg s) < w s * h s
       then Inl UndefinedBehaviour
     else
       (case live_pixels E (take (w s * h s) (dI img)) of
          Inl e \<Rightarrow> Inl e
        | Inr ps \<Rightarrow>
            Inr (s\<lparr>internalVideoImg := ps @ drop (w s * h s) (internalVideoImg s),
                   videoImgChanged := True\<rparr>)))"

section \<open>close, reset and reset\_internal\<close>

definition close_viewer :: "('k, 'v) viewer \<Rightarrow> ('k, 'v) viewer" where
  "close_viewer s = s\<lparr>running := False\<rparr>"

definition reset :: "('k, 'v) viewer \<Rightarrow> ('k, 'v) viewer" where
  "reset s = s\<lparr>needReset := True\<rparr>"

text \<open>
  Modelled from the spec: \<open>MinimalImageB3::setBlack\<close> is defined in util/minimal\_image.h,
  which is not part of the sources; the spec calls its result the blacked-out buffer.
  Every pixel becomes black, the size stays.
\<close>

definition setBlack :: "MinimalImageB3 \<Rightarrow> MinimalImageB3" where
  "setBlack img = replicate (length img) (0, 0, 0)"

text \<open>
  \<open>for (i = 0; i < keyframes.size(); ++i) delete keyframes[i];\<close>  Deleting the null pointer
  does nothing; deleting a pointer to no live object is undefined behaviour.
\<close>

fun delete_all :: "(addr \<rightharpoonup> 'k) \<Rightarrow> addr list \<Rightarrow> error + (addr \<rightharpoonup> 'k)" where
  "delete_all hp [] = Inr hp"
| "delete_all hp (p # ps) =
     (if p = 0 then delete_all hp ps
      else (case hp p of
              None \<Rightarrow> Inl UndefinedBehaviour
            | Some _ \<Rightarrow> delete_all (hp(p := None)) ps))"

definition reset_internal :: "('k, 'v) viewer \<Rightarrow> error + ('k, 'v) viewer" where
  "reset_internal s =
    (case delete_all (heap s) (keyframes s) of
       Inl e \<Rightarrow> Inl e
     | Inr hp \<Rightarrow>
         Inr (s\<lparr>heap := hp,
                keyframes := [],
                allFramePoses := [],
                keyframesByKFID := Map.empty,
                connections := [],
                internalVideoImg := setBlack (internalVideoImg s),
                internalKFImg := setBlack (internalKFImg s),
                internalResImg := setBlack (internalResImg s),
                videoImgChanged := True,
                kfImgChanged := True,
                resImgChanged := True,
                needReset := False\<rparr>))"

section \<open>The render loop: run\<close>

text \<open>
  What one iteration of the loop of \<open>run\<close> does outside the viewer's own state, in
  program order: the operations on the two mutexes, the OpenGL and Pangolin calls, and
  the assignments to the two rate displays.
\<close>

datatype mutex = Model3DMutex | OpenImagesMutex

datatype texture = TexVideo | TexKFDepth | TexResidual

datatype primitive = GL_LINES | GL_LINE_STRIP

datatype 'v event =
    Lock mutex
  | Unlock mutex
  | GlClear
  | Activate3D
  | DrawCam addr
  | RefreshPC addr bool
  | DrawPC addr
  | GlLineWidth nat
  | GlColor3f nat nat nat
  | GlBegin primitive
  | GlVertex3f 'v
  | GlEnd
  | Upload texture MinimalImageB3
  | ActivateView texture
  | GlColor4f
  | RenderToViewportFlipY texture
  | SetMapFps "real option"
  | SetTrackFps "real option"
  | LogWarning
  | ResetButton
  | FinishFrame

text \<open>
  The values of the \<open>pangolin::Var\<close> widgets that one iteration reads with \<open>Get()\<close>,
  and the answer of \<open>pangolin::ShouldQuit()\<close> at the head of the loop.
\<close>

record ui_vars =
  ui_ShouldQuit :: bool
  ui_pointCloudMode :: int
  ui_showKFCameras :: bool
  ui_showCurrentCamera :: bool
  ui_showTrajectory :: bool
  ui_showFullTrajectory :: bool
  ui_showActiveConstraints :: bool
  ui_showAllConstraints :: bool
  ui_show3D :: bool
  ui_showLiveDepth :: bool
  ui_showLiveVideo :: bool
  ui_showLiveResidual :: bool
  ui_showFramesWindow :: bool
  ui_showFullTracking :: bool
  ui_showCoarseTracking :: bool
  ui_sparsity :: int
  ui_scaledVarTH :: real
  ui_absVarTH :: real
  ui_minRelBS :: real
  ui_resetButton :: bool
  ui_nPts :: int
  ui_nCandidates :: int
  ui_nMaxFrames :: int
  ui_kfFrequency :: real
  ui_gradHistAdd :: real

text \<open>\<open>glVertex3f\<close> of the translation of the pose of the object at \<open>p\<close>.\<close>

definition vertex_of ::
  "('k, 'a, 'sh, 'c, 'v) ext \<Rightarrow> (addr \<rightharpoonup> 'k) \<Rightarrow> addr \<Rightarrow> error + 'v event" where
  "vertex_of E hp p =
     (case hp p of None \<Rightarrow> Inl UndefinedBehaviour | Some k \<Rightarrow> Inr (GlVertex3f (kf_translation E k)))"

text \<open>
  The two loops over \<open>connections\<close> in drawConstraints: a connection with a null endpoint
  is skipped, one that \<open>sel\<close> selects draws its two endpoints.
\<close>

fun draw_connections ::
  "('k, 'a, 'sh, 'c, 'v) ext \<Rightarrow> (addr \<rightharpoonup> 'k) \<Rightarrow> (GraphConnection \<Rightarrow> bool) \<Rightarrow>
   GraphConnection list \<Rightarrow> error + 'v event list" where
  "draw_connections E hp sel [] = Inr []"
| "draw_connections E hp sel (c # cs) =
     (if gc_to c = 0 \<or> gc_from c = 0 \<or> \<not> sel c then draw_connections E hp sel cs
      else (case vertex_of E hp (gc_from c) of
              Inl e \<Rightarrow> Inl e
            | Inr a \<Rightarrow>
               (case vertex_of E hp (gc_to c) of
                  Inl e \<Rightarrow> Inl e
                | Inr b \<Rightarrow>
                   (case draw_connections E hp sel cs of
                      Inl e \<Rightarrow> Inl e
                    | Inr es \<Rightarrow> Inr (a # b # es)))))"

fun draw_trajectory ::
  "('k, 'a, 'sh, 'c, 'v) ext \<Rightarrow> (addr \<rightharpoonup> 'k) \<Rightarrow> addr list \<Rightarrow> error + 'v event list" where
  "draw_trajectory E hp [] = Inr []"
| "draw_trajectory E hp (p # ps) =
     (case vertex_of E hp p of
        Inl e \<Rightarrow> Inl e
      | Inr a \<Rightarrow> (case draw_trajectory E hp ps of Inl e \<Rightarrow> Inl e | Inr es \<Rightarrow> Inr (a # es)))"

definition sel_marginalized :: "GraphConnection \<Rightarrow> bool" where
  "sel_marginalized c = (bwdAct c + fwdAct c = 0 \<and> bwdMarg c + fwdMarg c > 0)"

definition sel_active :: "GraphConnection \<Rightarrow> bool" where
  "sel_active c = (bwdAct c + fwdAct c > 0)"

definition drawConstraints ::
  "('k, 'a, 'sh, 'c, 'v) ext \<Rightarrow> ('k, 'v) viewer \<Rightarrow> error + 'v event list" where
  "drawConstraints E s =
    bindE (if settings_showAllConstraints (vsettings s)
           then bindE (draw_connections E (heap s) sel_marginalized (connections s))
                  (\<lambda>es. Inr ([GlLineWidth 1, GlBegin GL_LINES, GlColor3f 0 1 0, GlBegin GL_LINES]
                              @ es @ [GlEnd]))
           else Inr [])
    (\<lambda>e1. bindE (if settings_showActiveConstraints (vsettings s)
           then bindE (draw_connections E (heap s) sel_active (connections s))
                  (\<lambda>es. Inr ([GlLineWidth 3, GlColor3f 0 0 1, GlBegin GL_LINES] @ es @ [GlEnd]))
           else Inr [])
    (\<lambda>e2. bindE (if settings_showTrajectory (vsettings s)
           then bindE (draw_trajectory E (heap s) (keyframes s))
                  (\<lambda>es. Inr ([GlColor3f 1 0 0, GlLineWidth 3, GlBegin GL_LINE_STRIP] @ es @ [GlEnd]))
           else Inr [])
    (\<lambda>e3. Inr (e1 @ e2 @ e3 @
           (if settings_showFullTrajectory (vsettings s)
            then [GlColor3f 0 1 0, GlLineWidth 3, GlBegin GL_LINE_STRIP]
                 @ map GlVertex3f (allFramePoses s) @ [GlEnd]
            else [])))))"

text \<open>
  The loop over \<open>keyframes\<close> (lines 150 to 161); \<open>refreshed\<close> counts the point clouds
  refreshed so far in this iteration.
\<close>

fun draw_keyframes ::
  "('k, 'a, 'sh, 'c, 'v) ext \<Rightarrow> view_settings \<Rightarrow> addr list \<Rightarrow> int \<Rightarrow> (addr \<rightharpoonup> 'k) \<Rightarrow>
   error + ('v event list \<times> (addr \<rightharpoonup> 'k))" where
  "draw_keyframes E vs [] refreshed hp = Inr ([], hp)"
| "draw_keyframes E vs (fh # fhs) refreshed hp =
     (case hp fh of
        None \<Rightarrow> Inl UndefinedBehaviour
      | Some k \<Rightarrow>
          (case refreshPC E (refreshed < 10) (settings_scaledVarTH vs) (settings_absVarTH vs)
                  (settings_pointCloudMode vs) (settings_minRelBS vs) (settings_sparsity vs) k of
             (r, k') \<Rightarrow>
               (case draw_keyframes E vs fhs (refreshed + (if r then 1 else 0)) (hp(fh \<mapsto> k')) of
                  Inl e \<Rightarrow> Inl e
                | Inr (es, hp') \<Rightarrow>
                    Inr ((if settings_showKFCameras vs then [DrawCam fh] else [])
                         @ [RefreshPC fh (refreshed < 10), DrawPC fh] @ es, hp'))))"

text \<open>Lines 144 to 167: the 3D view, drawn while \<open>model3DMutex\<close> is held.\<close>

definition render_3D ::
  "('k, 'a, 'sh, 'c, 'v) ext \<Rightarrow> ('k, 'v) viewer \<Rightarrow> error + ('v event list \<times> ('k, 'v) viewer)" where
  "render_3D E s =
    (if setting_render_display3D (glob s) then
       bindE (draw_keyframes E (vsettings s) (keyframes s) 0 (heap s)) (\<lambda>(es, hp).
       bindE (if settings_showCurrentCamera (vsettings s)
              then (case hp (currentCam s) of
                      None \<Rightarrow> Inl UndefinedBehaviour
                    | Some _ \<Rightarrow> Inr [DrawCam (currentCam s)])
              else Inr []) (\<lambda>cam.
       bindE (drawConstraints E (s\<lparr>heap := hp\<rparr>)) (\<lambda>ds.
       Inr ([Activate3D, Lock Model3DMutex] @ es @ cam @ ds @ [Unlock Model3DMutex],
            s\<lparr>heap := hp\<rparr>))))
     else Inr ([], s))"

text \<open>Lines 169 to 180: the texture uploads, while \<open>openImagesMutex\<close> is held.\<close>

definition upload_images :: "('k, 'v) viewer \<Rightarrow> 'v event list \<times> ('k, 'v) viewer" where
  "upload_images s =
    ([Lock OpenImagesMutex]
     @ (if videoImgChanged s then [Upload TexVideo (internalVideoImg s)] else [])
     @ (if kfImgChanged s then [Upload TexKFDepth (internalKFImg s)] else [])
     @ (if resImgChanged s then [Upload TexResidual (internalResImg s)] else [])
     @ [Unlock OpenImagesMutex],
     s\<lparr>videoImgChanged := False, kfImgChanged := False, resImgChanged := False\<rparr>)"

text \<open>Lines 182 to 200: the two rates.\<close>

definition update_fps :: "('k, 'a, 'sh, 'c, 'v) ext \<Rightarrow> ('k, 'v) viewer \<Rightarrow> 'v event list" where
  "update_fps E s =
    [Lock OpenImagesMutex, SetMapFps (window_rate E (lastNMappingMs s)), Unlock OpenImagesMutex,
     Lock Model3DMutex, SetTrackFps (window_rate E (lastNTrackingMs s)), Unlock Model3DMutex]"

text \<open>Lines 202 to 218: the three image views.\<close>

definition render_images :: "('k, 'v) viewer \<Rightarrow> 'v event list" where
  "render_images s =
    (if setting_render_displayVideo (glob s)
     then [ActivateView TexVideo, GlColor4f, RenderToViewportFlipY TexVideo] else [])
    @ (if setting_render_displayDepth (glob s)
       then [ActivateView TexKFDepth, GlColor4f, RenderToViewportFlipY TexKFDepth] else [])
    @ (if setting_render_displayResidual (glob s)
       then [ActivateView TexResidual, GlColor4f, RenderToViewportFlipY TexResidual] else [])"

text \<open>Lines 220 to 255: the widgets' values are copied into the members and the globals.\<close>

definition update_parameters :: "ui_vars \<Rightarrow> ('k, 'v) viewer \<Rightarrow> 'v event list \<times> ('k, 'v) viewer" where
  "update_parameters ui s =
    (let vs = (vsettings s)\<lparr>
           settings_pointCloudMode := ui_pointCloudMode ui,
           settings_showActiveConstraints := ui_showActiveConstraints ui,
           settings_showAllConstraints := ui_showAllConstraints ui,
           settings_showCurrentCamera := ui_showCurrentCamera ui,
           settings_showKFCameras := ui_showKFCameras ui,
           settings_showTrajectory := ui_showTrajectory ui,
           settings_showFullTrajectory := ui_showFullTrajectory ui,
           settings_absVarTH := ui_absVarTH ui,
           settings_scaledVarTH := ui_scaledVarTH ui,
           settings_minRelBS := ui_minRelBS ui,
           settings_sparsity := ui_sparsity ui\<rparr>;
         g = (glob s)\<lparr>
           setting_render_display3D := ui_show3D ui,
           setting_render_displayDepth := ui_showLiveDepth ui,
           setting_render_displayVideo := ui_showLiveVideo ui,
           setting_render_displayResidual := ui_showLiveResidual ui,
           setting_render_renderWindowFrames := ui_showFramesWindow ui,
           setting_render_plotTrackingFull := ui_showFullTracking ui,
           setting_render_displayCoarseTrackingFull := ui_showCoarseTracking ui,
           setting_desiredPointDensity := ui_nPts ui,
           setting_desiredImmatureDensity := ui_nCandidates ui,
           setting_maxFrames := ui_nMaxFrames ui,
           setting_kfGlobalWeight := ui_kfFrequency ui,
           setting_minGradHistAdd := ui_gradHistAdd ui\<rparr>
     in if ui_resetButton ui
        then ([LogWarning, ResetButton],
              s\<lparr>vsettings := vs, glob := g\<lparr>setting_fullResetRequested := True\<rparr>\<rparr>)
        else ([], s\<lparr>vsettings := vs, glob := g\<rparr>))"

text \<open>The mutex operations of reset\_internal, in program order.\<close>

definition reset_events :: "'v event list" where
  "reset_events = [Lock Model3DMutex, Unlock Model3DMutex, Lock OpenImagesMutex, Unlock OpenImagesMutex]"

text \<open>The body of the loop (lines 141 to 262).\<close>

definition run_body ::
  "('k, 'a, 'sh, 'c, 'v) ext \<Rightarrow> ui_vars \<Rightarrow> ('k, 'v) viewer \<Rightarrow> error + ('v event list \<times> ('k, 'v) viewer)" where
  "run_body E ui s =
    bindE (render_3D E s) (\<lambda>(e1, s1).
    (case upload_images s1 of (e2, s2) \<Rightarrow>
    (case update_parameters ui s2 of (e5, s3) \<Rightarrow>
     (let es = [GlClear] @ e1 @ e2 @ update_fps E s2 @ render_images s2 @ e5 @ [FinishFrame]
      in if needReset s3
         then bindE (reset_internal s3) (\<lambda>s4. Inr (es @ reset_events, s4))
         else Inr (es, s3)))))"

text \<open>
  One pass through \<open>while (!pangolin::ShouldQuit() && running)\<close>: the body, or the end of
  the loop, after which \<open>run\<close> ends the process with \<open>exit(1)\<close>.
\<close>

definition run_iteration ::
  "('k, 'a, 'sh, 'c, 'v) ext \<Rightarrow> ui_vars \<Rightarrow> ('k, 'v) viewer \<Rightarrow> error + ('v event list \<times> ('k, 'v) viewer)" where
  "run_iteration E ui s =
    (if \<not> ui_ShouldQuit ui \<and> running s then run_body E ui s else Inl ProcessExit)"

section \<open>The constructor and sequences of calls\<close>

text \<open>
  The constructor (lines 15 to 39).  It leaves \<open>last_track\<close>, \<open>last_map\<close> and the
  \<open>settings_\<close> members as they are (\<open>tv0\<close>, \<open>tv1\<close>, \<open>vs\<close>); the containers start
  empty; \<open>g\<close> are the globals at that time.  Each image is allocated with \<open>w * h\<close>
  pixels and then blacked out; \<open>currentCam\<close> is the first object allocated.  Starting
  the render thread does not change the state.
\<close>

definition PangolinDSOViewer ::
  "('k, 'a, 'sh, 'c, 'v) ext \<Rightarrow> globals \<Rightarrow> view_settings \<Rightarrow> timeval \<Rightarrow> timeval \<Rightarrow> nat \<Rightarrow> nat \<Rightarrow>
   ('k, 'v) viewer" where
  "PangolinDSOViewer E g vs tv0 tv1 w0 h0 =
    \<lparr>w = w0, h = h0, running = True,
     internalVideoImg = setBlack (replicate (w0 * h0) (0, 0, 0)),
     internalKFImg = setBlack (replicate (w0 * h0) (0, 0, 0)),
     internalResImg = setBlack (replicate (w0 * h0) (0, 0, 0)),
     videoImgChanged = True, kfImgChanged = True, resImgChanged = True,
     currentCam = 1, needReset = False,
     keyframes = [], keyframesByKFID = Map.empty, allFramePoses = [], connections = [],
     lastNTrackingMs = [], lastNMappingMs = [],
     last_track = tv0, last_map = tv1,
     vsettings = vs, glob = g,
     heap = [1 \<mapsto> new_KeyFrameDisplay E], heap_next = 2\<rparr>"

text \<open>The calls the viewer can receive, and a sequence of them run from a state.\<close>

datatype ('a, 'sh, 'c) call =
    PublishGraph connectivity
  | PublishKeyframes "'a FrameHessian list" bool 'c
  | PublishCamPose 'sh 'c timeval
  | PushLiveFrame "'a FrameHessian"
  | PushDepthImage MinimalImageB3 timeval
  | Reset
  | Close
  | RunIteration ui_vars

fun do_call ::
  "('k, 'a, 'sh, 'c, 'v) ext \<Rightarrow> ('k, 'v) viewer \<Rightarrow> ('a, 'sh, 'c) call \<Rightarrow> error + ('k, 'v) viewer" where
  "do_call E s (PublishGraph c) = publishGraph E s c"
| "do_call E s (PublishKeyframes frames final HCalib) = publishKeyframes E s frames final HCalib"
| "do_call E s (PublishCamPose frame HCalib time_now) = publishCamPose E s frame HCalib time_now"
| "do_call E s (PushLiveFrame img) = pushLiveFrame E s img"
| "do_call E s (PushDepthImage img time_now) = pushDepthImage E s img time_now"
| "do_call E s Reset = Inr (reset s)"
| "do_call E s Close = Inr (close_viewer s)"
| "do_call E s (RunIteration ui) =
     (case run_iteration E ui s of Inl e \<Rightarrow> Inl e | Inr (es, s') \<Rightarrow> Inr s')"

fun do_calls ::
  "('k, 'a, 'sh, 'c, 'v) ext \<Rightarrow> ('k, 'v) viewer \<Rightarrow> ('a, 'sh, 'c) call list \<Rightarrow> error + ('k, 'v) viewer" where
  "do_calls E s [] = Inr s"
| "do_calls E s (c # cs) =
     (case do_call E s c of Inl e \<Rightarrow> Inl e | Inr s' \<Rightarrow> do_calls E s' cs)"

section \<open>Notions used to state the properties\<close>

text \<open>
  The entries of a connectivity map for which publishGraph writes a record (host below
  target), the record it writes for such an entry, and the unordered pairs with host
  other than target that a map mentions.
\<close>

definition retained :: "connectivity \<Rightarrow> connectivity" where
  "retained c = filter (\<lambda>p. host_of (fst p) < target_of (fst p)) c"

definition record_for :: "connectivity \<Rightarrow> (int \<rightharpoonup> addr) \<Rightarrow> 64 word \<times> Vector2i \<Rightarrow> GraphConnection" where
  "record_for c byId p =
     (let host = host_of (fst p); target = target_of (fst p);
          st = (case map_of c (inverseKey host target) of None \<Rightarrow> (0, 0) | Some st \<Rightarrow> st)
      in \<lparr>gc_from = lookup_kf byId host, gc_to = lookup_kf byId target,
          fwdMarg = snd (snd p), bwdMarg = snd st, fwdAct = fst (snd p), bwdAct = fst st\<rparr>)"

definition unordered_pair :: "64 word \<times> Vector2i \<Rightarrow> int set" where
  "unordered_pair p = {host_of (fst p), target_of (fst p)}"

definition unordered_pairs :: "connectivity \<Rightarrow> int set set" where
  "unordered_pairs c = unordered_pair ` {p \<in> set c. host_of (fst p) \<noteq> target_of (fst p)}"


text \<open>The packed key of the pair (host, target).\<close>

definition key_of :: "int \<Rightarrow> int \<Rightarrow> 64 word" where
  "key_of host target = push_bit 32 (word_of_int host) + word_of_int target"

section \<open>A concrete environment and state, for the examples\<close>

text \<open>
  A KeyFrameDisplay is represented by the pose it shows (a number), a frame carries its
  pose in \<open>fh_rest\<close>, a FrameShell is its pose; every float operation is exact.
\<close>

definition ext0 :: "(nat, nat, nat, unit, nat) ext" where
  "ext0 = \<lparr>new_KeyFrameDisplay = 0,
           new_GraphConnection =
             \<lparr>gc_from = 0, gc_to = 0, fwdMarg = 0, bwdMarg = 0, fwdAct = 0, bwdAct = 0\<rparr>,
           setFromKF = (\<lambda>fh HCalib k. fh_rest fh),
           setFromF = (\<lambda>frame HCalib k. frame),
           refreshPC = (\<lambda>canRefresh scaledTH absTH mode minBS sparsity k. (canRefresh, k)),
           kf_translation = (\<lambda>k. k),
           shell_translation = (\<lambda>frame. frame),
           fl = (\<lambda>x. x),
           dbl = (\<lambda>x. x)\<rparr>"

definition globals0 :: globals where
  "globals0 = \<lparr>disableAllDisplay = False,
               setting_render_display3D = True,
               setting_render_displayDepth = True,
               setting_render_displayVideo = True,
               setting_render_displayResidual = False,
               setting_render_renderWindowFrames = False,
               setting_render_plotTrackingFull = False,
               setting_render_displayCoarseTrackingFull = False,
               setting_desiredPointDensity = 2000,
               setting_desiredImmatureDensity = 1500,
               setting_maxFrames = 7,
               setting_kfGlobalWeight = 1,
               setting_minGradHistAdd = 7,
               setting_fullResetRequested = False\<rparr>"

definition vsettings0 :: view_settings where
  "vsettings0 = \<lparr>settings_pointCloudMode = 1,
                 settings_showKFCameras = False,
                 settings_showCurrentCamera = True,
                 settings_showTrajectory = True,
                 settings_showFullTrajectory = False,
                 settings_showActiveConstraints = True,
                 settings_showAllConstraints = False,
                 settings_absVarTH = 1 / 1000,
                 settings_scaledVarTH = 1 / 1000,
                 settings_minRelBS = 1 / 10,
                 settings_sparsity = 1\<rparr>"

definition tv0 :: timeval where
  "tv0 = \<lparr>tv_sec = 0, tv_usec = 0\<rparr>"

definition viewer0 :: "(nat, nat) viewer" where
  "viewer0 = PangolinDSOViewer ext0 globals0 vsettings0 tv0 tv0 2 1"

text \<open>The same state with all display disabled.\<close>

definition viewer_off :: "(nat, nat) viewer" where
  "viewer_off = viewer0\<lparr>glob := globals0\<lparr>disableAllDisplay := True\<rparr>\<rparr>"

text \<open>The connectivity map of the round-trip example, and two more.\<close>

definition conn12 :: connectivity where
  "conn12 = [(key_of 1 2, (3, 0)), (key_of 2 1, (0, 1))]"

definition conn123 :: connectivity where
  "conn123 = [(key_of 1 2, (3, 0)), (key_of 1 3, (4, 2)), (key_of 2 1, (0, 1)), (key_of 3 1, (6, 5))]"

definition frame0 :: "int \<Rightarrow> nat \<Rightarrow> nat FrameHessian" where
  "frame0 i pose = \<lparr>frameID = i, dI = [10, 400], fh_rest = pose\<rparr>"

text \<open>The connection lists of a result.\<close>

definition connections_of :: "error + ('k, 'v) viewer \<Rightarrow> error + GraphConnection list" where
  "connections_of r = (case r of Inl e \<Rightarrow> Inl e | Inr s \<Rightarrow> Inr (connections s))"





text \<open>The time \<open>ms\<close> milliseconds after \<open>tv0\<close>, and the tracking window of a result.\<close>

definition at_ms :: "int \<Rightarrow> timeval" where
  "at_ms ms = \<lparr>tv_sec = ms div 1000, tv_usec = (ms mod 1000) * 1000\<rparr>"


text \<open>
  The registry of keyframes is the vector \<open>keyframes\<close> with the map \<open>keyframesByKFID\<close>.
  No two handles with the same identifier: the handles of the vector are pairwise
  different, each is registered under exactly one identifier, and the map registers no
  other handle.
\<close>

definition unique_ids :: "('k, 'v) viewer \<Rightarrow> bool" where
  "unique_ids s =
     (distinct (keyframes s)
      \<and> (\<forall>p \<in> set (keyframes s). \<exists>!i. keyframesByKFID s i = Some p)
      \<and> (\<forall>i p. keyframesByKFID s i = Some p \<longrightarrow> p \<in> set (keyframes s)))"

text \<open>The vector and the map hold the same handles and have the same size.\<close>

definition same_handles :: "('k, 'v) viewer \<Rightarrow> bool" where
  "same_handles s =
     (finite (dom (keyframesByKFID s))
      \<and> (\<forall>p. p \<in> set (keyframes s) \<longleftrightarrow> p \<in> ran (keyframesByKFID s))
      \<and> length (keyframes s) = card (dom (keyframesByKFID s)))"

text \<open>
  What holds of the registry and the heap in every state the viewer reaches: with
  the above, the handles of the vector are live objects other than \<open>currentCam\<close>, which
  is live too, and every live address has been handed out by the allocator.
\<close>

definition registry_inv :: "('k, 'v) viewer \<Rightarrow> bool" where
  "registry_inv s =
     (distinct (keyframes s)
      \<and> set (keyframes s) = ran (keyframesByKFID s)
      \<and> inj_on (keyframesByKFID s) (dom (keyframesByKFID s))
      \<and> finite (dom (keyframesByKFID s))
      \<and> (\<forall>p \<in> set (keyframes s). 0 < p)
      \<and> set (keyframes s) \<subseteq> dom (heap s)
      \<and> (\<forall>p \<in> dom (heap s). p < heap_next s)
      \<and> currentCam s \<in> dom (heap s)
      \<and> currentCam s \<notin> set (keyframes s))"

text \<open>A call that leaves the registry, the allocator and the set of live objects alone.\<close>

definition same_registry :: "('k, 'v) viewer \<Rightarrow> ('k, 'v) viewer \<Rightarrow> bool" where
  "same_registry s s' =
     (keyframes s' = keyframes s \<and> keyframesByKFID s' = keyframesByKFID s
      \<and> dom (heap s') = dom (heap s) \<and> heap_next s' = heap_next s
      \<and> currentCam s' = currentCam s)"

text \<open>
  Reading a trace of events with the list of the mutexes held: \<open>ok held e\<close> is asked of
  every event, and at the end no mutex may be held.
\<close>

fun lock_scan :: "(mutex list \<Rightarrow> 'v event \<Rightarrow> bool) \<Rightarrow> mutex list \<Rightarrow> 'v event list \<Rightarrow> bool" where
  "lock_scan ok held [] = (held = [])"
| "lock_scan ok held (e # es) =
     (ok held e \<and>
      lock_scan ok (case e of Lock m \<Rightarrow> m # held | Unlock m \<Rightarrow> removeAll m held | _ \<Rightarrow> held) es)"

definition is_lock :: "'v event \<Rightarrow> bool" where
  "is_lock e = (case e of Lock m \<Rightarrow> True | Unlock m \<Rightarrow> True | _ \<Rightarrow> False)"

text \<open>
  The calls that draw or do input and output: all events but the mutex operations and
  the assignments to the two rate displays.
\<close>

definition is_draw_or_io :: "'v event \<Rightarrow> bool" where
  "is_draw_or_io e =
     (case e of Lock m \<Rightarrow> False | Unlock m \<Rightarrow> False
      | SetMapFps r \<Rightarrow> False | SetTrackFps r \<Rightarrow> False | _ \<Rightarrow> True)"

text \<open>No drawing or I/O call while a mutex is held.\<close>

definition draws_outside_locks :: "mutex list \<Rightarrow> 'v event \<Rightarrow> bool" where
  "draws_outside_locks held e = (is_draw_or_io e \<longrightarrow> held = [])"

text \<open>
  The discipline of the render loop: a mutex is locked only when none is held and
  unlocked only when it is the one held; the texture uploads and the mapping rate happen
  under \<open>openImagesMutex\<close>; the drawing of the 3D model and the tracking rate happen under
  \<open>model3DMutex\<close>; everything else happens with no mutex held.
\<close>

definition run_discipline :: "mutex list \<Rightarrow> 'v event \<Rightarrow> bool" where
  "run_discipline held e =
     (case e of
        Lock m \<Rightarrow> held = []
      | Unlock m \<Rightarrow> held = [m]
      | Upload t img \<Rightarrow> held = [OpenImagesMutex]
      | SetMapFps r \<Rightarrow> held = [OpenImagesMutex]
      | SetTrackFps r \<Rightarrow> held = [Model3DMutex]
      | DrawCam p \<Rightarrow> held = [Model3DMutex]
      | RefreshPC p b \<Rightarrow> held = [Model3DMutex]
      | DrawPC p \<Rightarrow> held = [Model3DMutex]
      | GlLineWidth n \<Rightarrow> held = [Model3DMutex]
      | GlColor3f r g b \<Rightarrow> held = [Model3DMutex]
      | GlBegin p \<Rightarrow> held = [Model3DMutex]
      | GlVertex3f v \<Rightarrow> held = [Model3DMutex]
      | GlEnd \<Rightarrow> held = [Model3DMutex]
      | _ \<Rightarrow> held = [])"

text \<open>An event of the drawing of the 3D model.\<close>

definition model_event :: "'v event \<Rightarrow> bool" where
  "model_event e =
     (case e of DrawCam p \<Rightarrow> True | RefreshPC p b \<Rightarrow> True | DrawPC p \<Rightarrow> True
      | GlLineWidth n \<Rightarrow> True | GlColor3f r g b \<Rightarrow> True | GlBegin p \<Rightarrow> True
      | GlVertex3f v \<Rightarrow> True | GlEnd \<Rightarrow> True | _ \<Rightarrow> False)"

text \<open>Widget values for the examples: nothing pressed, the defaults of \<open>run\<close>.\<close>

definition ui0 :: ui_vars where
  "ui0 = \<lparr>ui_ShouldQuit = False, ui_pointCloudMode = 1, ui_showKFCameras = False,
          ui_showCurrentCamera = True, ui_showTrajectory = True, ui_showFullTrajectory = False,
          ui_showActiveConstraints = True, ui_showAllConstraints = False,
          ui_show3D = True, ui_showLiveDepth = True, ui_showLiveVideo = True,
          ui_showLiveResidual = False, ui_showFramesWindow = False,
          ui_showFullTracking = False, ui_showCoarseTracking = False,
          ui_sparsity = 1, ui_scaledVarTH = 1 / 1000, ui_absVarTH = 1 / 1000,
          ui_minRelBS = 1 / 10, ui_resetButton = False,
          ui_nPts = 2000, ui_nCandidates = 1500, ui_nMaxFrames = 7,
          ui_kfFrequency = 1, ui_gradHistAdd = 7\<rparr>"

definition trace_of :: "error + ('v event list \<times> ('k, 'v) viewer) \<Rightarrow> error + 'v event list" where
  "trace_of r = (case r of Inl e \<Rightarrow> Inl e | Inr (es, s) \<Rightarrow> Inr es)"

text \<open>
  The endpoints of every connection are null or handles of the registry; the
  value-initialised GraphConnection has null endpoints.
\<close>

definition conn_inv :: "('k, 'v) viewer \<Rightarrow> bool" where
  "conn_inv s =
     (\<forall>c \<in> set (connections s).
        (gc_from c = 0 \<or> gc_from c \<in> set (keyframes s))
        \<and> (gc_to c = 0 \<or> gc_to c \<in> set (keyframes s)))"

definition null_default :: "('k, 'a, 'sh, 'c, 'v) ext \<Rightarrow> bool" where
  "null_default E = (gc_from (new_GraphConnection E) = 0 \<and> gc_to (new_GraphConnection E) = 0)"

chapter \<open>Properties\<close>

section \<open>Decoding the keys\<close>

lemma key_bits_eq:
  fixes k k' :: "64 word"
  assumes hi: "(ucast (drop_bit 32 k) :: 32 word) = ucast (drop_bit 32 k')"
      and lo: "(ucast (k AND 0xFFFFFFFF) :: 32 word) = ucast (k' AND 0xFFFFFFFF)"
  shows "k = k'"
proof (rule bit_word_eqI)
  fix n assume n: "n < LENGTH(64)"
  show "bit k n = bit k' n"
  proof (cases "n < 32")
    case True
    have m: "(0xFFFFFFFF :: 64 word) = mask 32" by (simp add: mask_eq_exp_minus_1)
    from lo have "bit (ucast (k AND mask 32) :: 32 word) n = bit (ucast (k' AND mask 32) :: 32 word) n"
      by (simp add: m)
    with True show ?thesis by (simp add: bit_simps)
  next
    case False
    from hi have "bit (ucast (drop_bit 32 k) :: 32 word) (n - 32)
                = bit (ucast (drop_bit 32 k') :: 32 word) (n - 32)"
      by simp
    moreover from False n have "n - 32 < 32" by simp
    ultimately show ?thesis using False by (simp add: bit_simps)
  qed
qed

lemma host_target_inj: "host_of k = host_of k' \<Longrightarrow> target_of k = target_of k' \<Longrightarrow> k = k'"
  unfolding host_of_def target_of_def
  by (rule key_bits_eq) (simp_all add: signed_word_eqI)

lemma keys_12:
  "key_of 1 2 = 4294967298" "key_of 2 1 = 8589934593" "key_of 1 1 = 4294967297"
  "key_of 1 3 = 4294967299" "key_of 3 1 = 12884901889"
  "key_of 2 3 = 8589934595" "key_of 3 2 = 12884901890"
  by (simp_all add: key_of_def)

lemma decode_12:
  "host_of 4294967298 = 1" "target_of 4294967298 = 2"
  "host_of 8589934593 = 2" "target_of 8589934593 = 1"
  "host_of 4294967297 = 1" "target_of 4294967297 = 1"
  "host_of 4294967299 = 1" "target_of 4294967299 = 3"
  "host_of 12884901889 = 3" "target_of 12884901889 = 1"
  "host_of 8589934595 = 2" "target_of 8589934595 = 3"
  "host_of 12884901890 = 3" "target_of 12884901890 = 2"
  "host_of 18446744069414584321 = - 1" "target_of 18446744069414584321 = 1"
  by (simp_all add: host_of_def target_of_def)

lemma inverse_12:
  "inverseKey 1 2 = 8589934593" "inverseKey 1 3 = 12884901889" "inverseKey 2 3 = 12884901890"
  by (simp_all add: inverseKey_def)

section \<open>The loop of publishGraph\<close>

lemma graph_step_cases:
  assumes "graph_step c byId p acc = Inr acc'"
  shows "(host_of (fst p) < target_of (fst p) \<and> runningID acc < length (conns acc) \<and>
          conns acc' = (conns acc)[runningID acc := record_for c byId p] \<and>
          runningID acc' = Suc (runningID acc))
       \<or> (\<not> host_of (fst p) < target_of (fst p) \<and> acc' = acc)"
  using assms
  by (auto simp: graph_step_def Let_def record_for_def split: if_splits option.splits)

lemma graph_loop_conns:
  assumes "graph_loop c byId ps acc = Inr acc'"
  shows "conns acc' = take (runningID acc) (conns acc) @ map (record_for c byId) (retained ps)
                        @ drop (runningID acc + length (retained ps)) (conns acc)
         \<and> runningID acc' = runningID acc + length (retained ps)
         \<and> length (conns acc') = length (conns acc)
         \<and> (retained ps \<noteq> [] \<longrightarrow> runningID acc' \<le> length (conns acc))"
  using assms
proof (induction ps arbitrary: acc)
  case Nil
  then show ?case by (simp add: retained_def)
next
  case (Cons p ps)
  from Cons.prems obtain a1 where s1: "graph_step c byId p acc = Inr a1"
    and l1: "graph_loop c byId ps a1 = Inr acc'"
    by (auto split: sum.splits)
  note IH = Cons.IH [OF l1]
  from graph_step_cases [OF s1] show ?case
  proof
    assume A: "host_of (fst p) < target_of (fst p) \<and> runningID acc < length (conns acc) \<and>
          conns a1 = (conns acc)[runningID acc := record_for c byId p] \<and>
          runningID a1 = Suc (runningID acc)"
    then have r: "retained (p # ps) = p # retained ps" by (simp add: retained_def)
    from A have "take (runningID a1) (conns a1)
        = take (runningID acc) (conns acc) @ [record_for c byId p]"
      by (simp add: take_Suc_conv_app_nth)
    moreover from A have "drop (runningID a1 + length (retained ps)) (conns a1)
        = drop (runningID acc + length (retained (p # ps))) (conns acc)"
      by (simp add: r)
    ultimately show ?thesis using IH A by (auto simp: r)
  next
    assume B: "\<not> host_of (fst p) < target_of (fst p) \<and> a1 = acc"
    then have r: "retained (p # ps) = retained ps" by (simp add: retained_def)
    from B have e: "a1 = acc" by simp
    show ?thesis using IH unfolding r e .
  qed
qed

lemma length_resize_vec: "length (resize_vec d n xs) = n"
  by (simp add: resize_vec_def)

lemma publishGraph_off: "display3D_off s \<Longrightarrow> publishGraph E s c = Inr s"
  by (simp add: publishGraph_def)

lemma publishGraph_on:
  assumes "\<not> display3D_off s" and "publishGraph E s c = Inr s'"
  shows "s' = s\<lparr>connections := map (record_for c (keyframesByKFID s)) (retained c)
                  @ drop (length (retained c)) (resize_vec (new_GraphConnection E) (length c) (connections s))\<rparr>"
proof -
  from assms obtain acc where
    l: "graph_loop c (keyframesByKFID s) c
          (graph_acc0 (resize_vec (new_GraphConnection E) (length c) (connections s))) = Inr acc"
    and s': "s' = s\<lparr>connections := conns acc\<rparr>"
    by (auto simp: publishGraph_def split: sum.splits)
  from graph_loop_conns [OF l] show ?thesis
    by (simp add: s' graph_acc0_def)
qed

lemma length_retained_le: "length (retained c) \<le> length c"
  by (simp add: retained_def)

text \<open>Distinct keys give distinct unordered pairs among the retained entries.\<close>

lemma unordered_pair_inj:
  assumes "host_of (fst p) < target_of (fst p)" "host_of (fst q) < target_of (fst q)"
    and "unordered_pair p = unordered_pair q"
  shows "fst p = fst q"
proof -
  from assms have "host_of (fst p) = host_of (fst q) \<and> target_of (fst p) = target_of (fst q)"
    by (auto simp: unordered_pair_def doubleton_eq_iff)
  then show ?thesis by (auto intro: host_target_inj)
qed

lemma distinct_retained_pairs:
  assumes "distinct (map fst c)"
  shows "distinct (map unordered_pair (retained c))"
proof -
  have d: "distinct (map fst (retained c))"
    unfolding retained_def using assms by (rule distinct_map_filter)
  have "inj_on unordered_pair (set (retained c))"
  proof (rule inj_onI)
    fix p q assume p: "p \<in> set (retained c)" and q: "q \<in> set (retained c)"
      and e: "unordered_pair p = unordered_pair q"
    from p q have "host_of (fst p) < target_of (fst p)" "host_of (fst q) < target_of (fst q)"
      by (simp_all add: retained_def)
    then have "fst p = fst q" using e by (rule unordered_pair_inj)
    with d p q show "p = q"
      by (meson distinct_map inj_onD)
  qed
  moreover from d have "distinct (retained c)" by (simp add: distinct_map)
  ultimately show ?thesis by (simp add: distinct_map)
qed

lemma wf_connectivity_distinct: "wf_connectivity c \<Longrightarrow> distinct (map fst c)"
  by (simp add: wf_connectivity_def strict_sorted_iff)

lemma retained_le_pairs:
  assumes "distinct (map fst c)"
  shows "length (retained c) \<le> card (unordered_pairs c)"
proof -
  have "length (retained c) = card (set (map unordered_pair (retained c)))"
    using distinct_retained_pairs [OF assms] by (simp add: distinct_card del: set_map)
  also have "\<dots> \<le> card (unordered_pairs c)"
  proof (rule card_mono)
    show "finite (unordered_pairs c)" by (simp add: unordered_pairs_def)
    show "set (map unordered_pair (retained c)) \<subseteq> unordered_pairs c"
      by (auto simp: unordered_pairs_def retained_def)
  qed
  finally show ?thesis .
qed

section \<open>Evaluating the examples\<close>

lemma viewer0_on: "\<not> display3D_off viewer0"
  by (simp add: display3D_off_def viewer0_def PangolinDSOViewer_def globals0_def)


lemma viewer0_fields:
  "connections viewer0 = []" "keyframesByKFID viewer0 = Map.empty" "keyframes viewer0 = []"
  "heap_next viewer0 = 2" "currentCam viewer0 = 1" "w viewer0 = 2" "h viewer0 = 1"
  "glob viewer0 = globals0" "vsettings viewer0 = vsettings0" "needReset viewer0 = False"
  "running viewer0 = True" "lastNTrackingMs viewer0 = []" "lastNMappingMs viewer0 = []"
  "allFramePoses viewer0 = []" "heap viewer0 = [1 \<mapsto> 0]"
  "videoImgChanged viewer0 = True" "kfImgChanged viewer0 = True" "resImgChanged viewer0 = True"
  "internalVideoImg viewer0 = [(0, 0, 0), (0, 0, 0)]"
  "internalKFImg viewer0 = [(0, 0, 0), (0, 0, 0)]"
  "internalResImg viewer0 = [(0, 0, 0), (0, 0, 0)]"
  "last_track viewer0 = tv0" "last_map viewer0 = tv0"
  by (simp_all add: viewer0_def PangolinDSOViewer_def ext0_def setBlack_def numeral_2_eq_2)

lemma wf_conn12: "wf_connectivity conn12"
  by (simp add: wf_connectivity_def conn12_def keys_12)

lemma unordered_pairs_code:
  "unordered_pairs c = set (map unordered_pair (filter (\<lambda>p. host_of (fst p) \<noteq> target_of (fst p)) c))"
  by (auto simp: unordered_pairs_def)

lemma pairs_conn12: "card (unordered_pairs conn12) = 1"
  by (simp add: unordered_pairs_code conn12_def keys_12 decode_12 unordered_pair_def insert_commute)

lemma retained_conn12: "retained conn12 = [(key_of 1 2, (3, 0))]"
  by (simp add: retained_def conn12_def keys_12 decode_12)

lemma resize_vec_2_Nil: "resize_vec d (Suc (Suc 0)) [] = [d, d]"
  by (simp add: resize_vec_def)

lemma publish_conn12:
  "publishGraph ext0 viewer0 conn12 =
     Inr (viewer0\<lparr>connections :=
        [\<lparr>gc_from = 0, gc_to = 0, fwdMarg = 0, bwdMarg = 1, fwdAct = 3, bwdAct = 0\<rparr>,
         \<lparr>gc_from = 0, gc_to = 0, fwdMarg = 0, bwdMarg = 0, fwdAct = 0, bwdAct = 0\<rparr>]\<rparr>)"
  by (simp add: publishGraph_def viewer0_on viewer0_fields conn12_def keys_12 decode_12 inverse_12
        graph_step_def graph_acc0_def resize_vec_2_Nil lookup_kf_def ext0_def)

section \<open>publishGraph: the connection list after a publish\<close>

lemma record_for_conn12:
  "record_for conn12 Map.empty (key_of 1 2, (3, 0))
     = \<lparr>gc_from = 0, gc_to = 0, fwdMarg = 0, bwdMarg = 1, fwdAct = 3, bwdAct = 0\<rparr>"
  by (simp add: record_for_def conn12_def keys_12 decode_12 inverse_12 lookup_kf_def)

text \<open>
  C1, as the code has it.  A publish that returns, for a map with ascending keys: with the
  3D display switched off the viewer is unchanged; otherwise only the connection list
  changes, it has one slot per entry of the map, its first slots are the records written
  by this publish, one per entry with host below target and in the order of the keys, so
  there are at most as many as unordered pairs with host other than target, no two of
  them are for the same unordered pair, and none is for a self-pair.
\<close>

theorem publishGraph_written_slots:
  assumes "wf_connectivity c" and "publishGraph E s c = Inr s'"
  shows "if display3D_off s then s' = s
         else s' = s\<lparr>connections := connections s'\<rparr>
            \<and> length (connections s') = length c
            \<and> take (length (retained c)) (connections s')
                 = map (record_for c (keyframesByKFID s)) (retained c)
            \<and> length (retained c) \<le> card (unordered_pairs c)
            \<and> distinct (map unordered_pair (retained c))
            \<and> (\<forall>p \<in> set (retained c). host_of (fst p) \<noteq> target_of (fst p))"
proof (cases "display3D_off s")
  case True
  with assms(2) show ?thesis by (simp add: publishGraph_off)
next
  case False
  note eq = publishGraph_on [OF False assms(2)]
  have d: "distinct (map fst c)" using assms(1) by (rule wf_connectivity_distinct)
  have 1: "s' = s\<lparr>connections := connections s'\<rparr>"
    by (subst (2) eq, subst eq) simp
  have 2: "length (connections s') = length c"
    using length_retained_le [of c] by (subst eq) (simp add: length_resize_vec)
  have 3: "take (length (retained c)) (connections s')
             = map (record_for c (keyframesByKFID s)) (retained c)"
    by (subst eq) simp
  have 4: "length (retained c) \<le> card (unordered_pairs c)"
    using d by (rule retained_le_pairs)
  have 5: "distinct (map unordered_pair (retained c))"
    using d by (rule distinct_retained_pairs)
  have 6: "\<forall>p \<in> set (retained c). host_of (fst p) \<noteq> target_of (fst p)"
    by (auto simp: retained_def)
  from False 1 2 3 4 5 6 show ?thesis by simp
qed

theorem publishGraph_written_slots_witness:
  "wf_connectivity conn12
   \<and> \<not> display3D_off viewer0
   \<and> publishGraph ext0 viewer0 conn12 =
       Inr (viewer0\<lparr>connections :=
         [\<lparr>gc_from = 0, gc_to = 0, fwdMarg = 0, bwdMarg = 1, fwdAct = 3, bwdAct = 0\<rparr>,
          \<lparr>gc_from = 0, gc_to = 0, fwdMarg = 0, bwdMarg = 0, fwdAct = 0, bwdAct = 0\<rparr>]\<rparr>)
   \<and> retained conn12 = [(key_of 1 2, (3, 0))]
   \<and> record_for conn12 Map.empty (key_of 1 2, (3, 0))
       = \<lparr>gc_from = 0, gc_to = 0, fwdMarg = 0, bwdMarg = 1, fwdAct = 3, bwdAct = 0\<rparr>
   \<and> card (unordered_pairs conn12) = 1
   \<and> take (length (retained conn12))
        [\<lparr>gc_from = 0, gc_to = 0, fwdMarg = 0, bwdMarg = 1, fwdAct = 3, bwdAct = 0\<rparr>,
         \<lparr>gc_from = 0, gc_to = 0, fwdMarg = 0, bwdMarg = 0, fwdAct = 0, bwdAct = 0\<rparr>]
       = map (record_for conn12 (keyframesByKFID viewer0)) (retained conn12)
   \<and> length (retained conn12) \<le> card (unordered_pairs conn12)
   \<and> distinct (map unordered_pair (retained conn12))"
  using publishGraph_written_slots [OF wf_conn12 publish_conn12]
  by (simp add: wf_conn12 publish_conn12 viewer0_on retained_conn12 pairs_conn12
        record_for_conn12)

text \<open>
  C1 as stated fails.  Published in the state the constructor leaves, the map of the one
  pair (1,2) gives a list of two slots, more than the one unordered pair of the input;
  the second slot is the value-initialised record.  And after three keyframes and a first
  publish of the pairs (1,2) and (1,3), publishing the single pair (2,3) leaves two slots
  of which the second still holds the record of the pair (1,3) from the first publish.
\<close>

theorem publishGraph_size_counterexample:
  "publishGraph ext0 viewer0 conn12 =
       Inr (viewer0\<lparr>connections :=
         [\<lparr>gc_from = 0, gc_to = 0, fwdMarg = 0, bwdMarg = 1, fwdAct = 3, bwdAct = 0\<rparr>,
          \<lparr>gc_from = 0, gc_to = 0, fwdMarg = 0, bwdMarg = 0, fwdAct = 0, bwdAct = 0\<rparr>]\<rparr>)
   \<and> card (unordered_pairs conn12) = 1
   \<and> \<not> length [\<lparr>gc_from = 0, gc_to = 0, fwdMarg = 0, bwdMarg = 1, fwdAct = 3, bwdAct = 0\<rparr>,
          \<lparr>gc_from = 0, gc_to = 0, fwdMarg = 0, bwdMarg = 0, fwdAct = 0, bwdAct = 0\<rparr>]
        \<le> card (unordered_pairs conn12)
   \<and> connections_of (do_calls ext0 viewer0
      [PublishKeyframes [frame0 1 11, frame0 2 12, frame0 3 13] False (),
       PublishGraph conn123,
       PublishGraph [(key_of 2 3, (5, 0)), (key_of 3 2, (0, 7))]])
     = Inr [\<lparr>gc_from = 3, gc_to = 4, fwdMarg = 0, bwdMarg = 7, fwdAct = 5, bwdAct = 0\<rparr>,
            \<lparr>gc_from = 2, gc_to = 4, fwdMarg = 2, bwdMarg = 5, fwdAct = 4, bwdAct = 6\<rparr>]
   \<and> card (unordered_pairs [(key_of 2 3, (5, 0)), (key_of 3 2, (0, 7))]) = 1"
proof -
  have 1: "connections_of (do_calls ext0 viewer0
      [PublishKeyframes [frame0 1 11, frame0 2 12, frame0 3 13] False (),
       PublishGraph conn123,
       PublishGraph [(key_of 2 3, (5, 0)), (key_of 3 2, (0, 7))]])
   = Inr [\<lparr>gc_from = 3, gc_to = 4, fwdMarg = 0, bwdMarg = 7, fwdAct = 5, bwdAct = 0\<rparr>,
          \<lparr>gc_from = 2, gc_to = 4, fwdMarg = 2, bwdMarg = 5, fwdAct = 4, bwdAct = 6\<rparr>]"
    by code_simp
  have 2: "card (unordered_pairs [(key_of 2 3, (5, 0)), (key_of 3 2, (0, 7))]) = 1"
    by (simp add: unordered_pairs_code keys_12 decode_12 unordered_pair_def insert_commute)
  from 1 2 publish_conn12 pairs_conn12 show ?thesis by simp
qed

section \<open>publishGraph: the round trip of the example map\<close>




section \<open>publishGraph: when it fails\<close>









section \<open>reset\_internal\<close>

lemma delete_all_total:
  assumes "distinct ps" and "\<forall>p \<in> set ps. p \<noteq> 0 \<longrightarrow> p \<in> dom hp"
  shows "\<exists>hp'. delete_all hp ps = Inr hp'"
  using assms
proof (induction ps arbitrary: hp)
  case Nil
  then show ?case by simp
next
  case (Cons p ps)
  show ?case
  proof (cases "p = 0")
    case True
    with Cons show ?thesis by simp
  next
    case False
    with Cons.prems obtain k where k: "hp p = Some k" by auto
    have "\<exists>hp'. delete_all (hp(p := None)) ps = Inr hp'"
    proof (rule Cons.IH)
      show "distinct ps" using Cons.prems(1) by simp
      show "\<forall>q \<in> set ps. q \<noteq> 0 \<longrightarrow> q \<in> dom (hp(p := None))"
        using Cons.prems by auto
    qed
    with False k show ?thesis by simp
  qed
qed

lemma delete_all_result:
  "delete_all hp ps = Inr hp' \<Longrightarrow> hp' = (\<lambda>p. if p \<in> set ps \<and> p \<noteq> 0 then None else hp p)"
proof (induction ps arbitrary: hp)
  case Nil
  then show ?case by simp
next
  case (Cons p ps)
  show ?case
  proof (cases "p = 0")
    case True
    with Cons.prems have "delete_all hp ps = Inr hp'" by simp
    from Cons.IH [OF this] True show ?thesis by auto
  next
    case False
    with Cons.prems have "delete_all (hp(p := None)) ps = Inr hp'"
      by (simp split: option.splits)
    from Cons.IH [OF this] False show ?thesis by auto
  qed
qed



section \<open>pushLiveFrame with the display switched off\<close>

text \<open>
  C9.  With all display disabled, or with the live video display disabled, pushLiveFrame
  returns the viewer as it was: no pixel of any of the three buffers and no dirty flag
  changes, whatever the image.
\<close>

theorem pushLiveFrame_disabled:
  assumes "disableAllDisplay (glob s) \<or> \<not> setting_render_displayVideo (glob s)"
  shows "pushLiveFrame E s img = Inr s"
  using assms by (simp add: pushLiveFrame_def)

theorem pushLiveFrame_disabled_witness:
  "disableAllDisplay (glob viewer_off)
   \<and> pushLiveFrame ext0 viewer_off (frame0 1 11) = Inr viewer_off
   \<and> pushLiveFrame ext0 viewer0 (frame0 1 11) =
        Inr (viewer0\<lparr>internalVideoImg := [(8, 8, 8), (255, 255, 255)], videoImgChanged := True\<rparr>)"
proof -
  have d: "disableAllDisplay (glob viewer_off)"
    by (simp add: viewer_off_def)
  have e: "pushLiveFrame ext0 viewer0 (frame0 1 11) =
        Inr (viewer0\<lparr>internalVideoImg := [(8, 8, 8), (255, 255, 255)], videoImgChanged := True\<rparr>)"
    by (simp add: pushLiveFrame_def viewer0_fields globals0_def frame0_def live_pixel_def
          uchar_of_def ext0_def)
  from pushLiveFrame_disabled [of viewer_off ext0 "frame0 1 11"] d e
  show ?thesis by simp
qed

section \<open>The latency windows\<close>












section \<open>The registry of keyframes\<close>

lemma registry_inv_init: "registry_inv (PangolinDSOViewer E g vs t0 t1 w0 h0)"
  by (simp add: registry_inv_def PangolinDSOViewer_def)

lemma registry_inv_cong:
  assumes "registry_inv s"
    and "keyframes s' = keyframes s" "keyframesByKFID s' = keyframesByKFID s"
    and "dom (heap s') = dom (heap s)" "heap_next s' = heap_next s" "currentCam s' = currentCam s"
  shows "registry_inv s'"
  unfolding registry_inv_def assms(2-6) using assms(1) unfolding registry_inv_def .

lemma upsert_keyframe_known:
  assumes "keyframesByKFID s (frameID fh) = Some p" and "heap s p = Some k"
  shows "upsert_keyframe E HCalib fh s = Inr (s\<lparr>heap := (heap s)(p \<mapsto> setFromKF E fh HCalib k)\<rparr>)"
  using assms by (simp add: upsert_keyframe_def)

lemma upsert_keyframe_new:
  assumes "keyframesByKFID s (frameID fh) = None"
  shows "upsert_keyframe E HCalib fh s =
     Inr (s\<lparr>heap := (heap s)(heap_next s \<mapsto> setFromKF E fh HCalib (new_KeyFrameDisplay E)),
            heap_next := Suc (heap_next s),
            keyframesByKFID := (keyframesByKFID s)(frameID fh \<mapsto> heap_next s),
            keyframes := keyframes s @ [heap_next s]\<rparr>)"
  using assms by (simp add: upsert_keyframe_def Let_def)

lemma registry_inv_live:
  assumes "registry_inv s" and "keyframesByKFID s i = Some p"
  shows "\<exists>k. heap s p = Some k"
proof -
  from assms(2) have "p \<in> ran (keyframesByKFID s)" by (auto simp: ran_def)
  with assms(1) have "p \<in> dom (heap s)" unfolding registry_inv_def by blast
  then show ?thesis by auto
qed

lemma upsert_keyframe_inv:
  assumes inv: "registry_inv s"
  shows "\<exists>s'. upsert_keyframe E HCalib fh s = Inr s' \<and> registry_inv s'"
proof (cases "keyframesByKFID s (frameID fh)")
  case (Some p)
  from registry_inv_live [OF inv Some] obtain k where k: "heap s p = Some k" ..
  have "registry_inv (s\<lparr>heap := (heap s)(p \<mapsto> setFromKF E fh HCalib k)\<rparr>)"
    using inv k by (intro registry_inv_cong [OF inv]) auto
  with upsert_keyframe_known [OF Some k, of E HCalib] show ?thesis by simp
next
  case None
  let ?n = "heap_next s"
  let ?s' = "s\<lparr>heap := (heap s)(?n \<mapsto> setFromKF E fh HCalib (new_KeyFrameDisplay E)),
            heap_next := Suc ?n,
            keyframesByKFID := (keyframesByKFID s)(frameID fh \<mapsto> ?n),
            keyframes := keyframes s @ [?n]\<rparr>"
  from inv have b: "\<forall>p \<in> dom (heap s). p < ?n" and c: "currentCam s \<in> dom (heap s)"
    unfolding registry_inv_def by blast+
  from b have fresh: "?n \<notin> dom (heap s)" by blast
  from b c have "currentCam s < ?n" by blast
  then have pos: "0 < ?n" by simp
  from inv fresh have nk: "?n \<notin> set (keyframes s)" "?n \<notin> ran (keyframesByKFID s)"
    unfolding registry_inv_def by auto
  have r: "ran ((keyframesByKFID s)(frameID fh \<mapsto> ?n)) = insert ?n (ran (keyframesByKFID s))"
    using None by simp
  have i: "inj_on ((keyframesByKFID s)(frameID fh \<mapsto> ?n)) (dom ((keyframesByKFID s)(frameID fh \<mapsto> ?n)))"
  proof (rule inj_onI)
    fix a b
    assume a: "a \<in> dom ((keyframesByKFID s)(frameID fh \<mapsto> ?n))"
      and b: "b \<in> dom ((keyframesByKFID s)(frameID fh \<mapsto> ?n))"
      and e: "((keyframesByKFID s)(frameID fh \<mapsto> ?n)) a = ((keyframesByKFID s)(frameID fh \<mapsto> ?n)) b"
    from inv have inj: "inj_on (keyframesByKFID s) (dom (keyframesByKFID s))"
      unfolding registry_inv_def by simp
    show "a = b"
    proof (cases "a = frameID fh"; cases "b = frameID fh")
      assume "a \<noteq> frameID fh" "b \<noteq> frameID fh"
      with a b e inj show ?thesis by (auto dest: inj_onD)
    next
      assume "a = frameID fh" "b \<noteq> frameID fh"
      with b e nk(2) show ?thesis by (auto simp: ran_def)
    next
      assume "a \<noteq> frameID fh" "b = frameID fh"
      with a e nk(2) show ?thesis by (auto simp: ran_def)
    qed simp
  qed
  have "registry_inv ?s'"
    unfolding registry_inv_def
    using inv fresh pos nk r i unfolding registry_inv_def
    by (auto simp: less_Suc_eq)
  with upsert_keyframe_new [OF None, of E HCalib] show ?thesis by simp
qed

lemma keyframes_loop_inv:
  assumes "registry_inv s"
  shows "\<exists>s'. keyframes_loop E HCalib fhs s = Inr s' \<and> registry_inv s'"
  using assms
proof (induction fhs arbitrary: s)
  case Nil
  then show ?case by simp
next
  case (Cons fh fhs)
  from upsert_keyframe_inv [OF Cons.prems, of E HCalib fh] obtain s1 where
    1: "upsert_keyframe E HCalib fh s = Inr s1" and 2: "registry_inv s1" by blast
  from Cons.IH [OF 2] 1 show ?case by simp
qed

lemma publishKeyframes_inv:
  assumes "registry_inv s"
  shows "\<exists>s'. publishKeyframes E s frames final HCalib = Inr s' \<and> registry_inv s'"
  using assms keyframes_loop_inv [OF assms, of E HCalib frames] by (simp add: publishKeyframes_def)


lemma same_registry_inv: "registry_inv s \<Longrightarrow> same_registry s s' \<Longrightarrow> registry_inv s'"
  unfolding same_registry_def by (rule registry_inv_cong) simp_all

lemma same_registry_refl: "same_registry s s"
  by (simp add: same_registry_def)

lemma same_registry_trans: "same_registry s s1 \<Longrightarrow> same_registry s1 s2 \<Longrightarrow> same_registry s s2"
  by (simp add: same_registry_def)

lemma publishGraph_same: "publishGraph E s c = Inr s' \<Longrightarrow> same_registry s s'"
  by (auto simp: publishGraph_def same_registry_def split: if_splits sum.splits)

lemma publishCamPose_same: "publishCamPose E s frame HCalib t = Inr s' \<Longrightarrow> same_registry s s'"
  by (auto simp: publishCamPose_def same_registry_def Let_def split: if_splits option.splits)

lemma pushLiveFrame_same: "pushLiveFrame E s img = Inr s' \<Longrightarrow> same_registry s s'"
  by (auto simp: pushLiveFrame_def same_registry_def split: if_splits sum.splits)

lemma pushDepthImage_same: "pushDepthImage E s img t = Inr s' \<Longrightarrow> same_registry s s'"
  by (auto simp: pushDepthImage_def same_registry_def Let_def split: if_splits)

lemma reset_same: "same_registry s (reset s)"
  by (simp add: reset_def same_registry_def)

lemma close_same: "same_registry s (close_viewer s)"
  by (simp add: close_viewer_def same_registry_def)

lemma draw_keyframes_dom:
  "draw_keyframes E vs ps n hp = Inr (es, hp') \<Longrightarrow> dom hp' = dom hp"
proof (induction ps arbitrary: n hp es)
  case Nil
  then show ?case by simp
next
  case (Cons p ps)
  from Cons.prems obtain k where k: "hp p = Some k"
    by (auto split: option.splits)
  obtain r k' where rk: "refreshPC E (n < 10) (settings_scaledVarTH vs) (settings_absVarTH vs)
      (settings_pointCloudMode vs) (settings_minRelBS vs) (settings_sparsity vs) k = (r, k')"
    by (cases "refreshPC E (n < 10) (settings_scaledVarTH vs) (settings_absVarTH vs)
      (settings_pointCloudMode vs) (settings_minRelBS vs) (settings_sparsity vs) k") auto
  from Cons.prems k rk obtain es' where
    "draw_keyframes E vs ps (n + (if r then 1 else 0)) (hp(p \<mapsto> k')) = Inr (es', hp')"
    by (auto split: sum.splits)
  from Cons.IH [OF this] have "dom hp' = dom (hp(p \<mapsto> k'))" .
  also from k have "\<dots> = dom hp" by auto
  finally show ?case .
qed

lemma render_3D_cases:
  assumes "render_3D E s = Inr (es, s')"
  shows "s' = s \<or> (\<exists>e1 hp. draw_keyframes E (vsettings s) (keyframes s) 0 (heap s) = Inr (e1, hp)
                        \<and> s' = s\<lparr>heap := hp\<rparr>)"
  using assms
  by (auto simp: render_3D_def bindE_def split: if_splits sum.splits prod.splits)

lemma render_3D_same:
  assumes "render_3D E s = Inr (es, s')"
  shows "same_registry s s'"
  using render_3D_cases [OF assms]
proof
  assume "s' = s"
  then show ?thesis by (simp add: same_registry_refl)
next
  assume "\<exists>e1 hp. draw_keyframes E (vsettings s) (keyframes s) 0 (heap s) = Inr (e1, hp)
                        \<and> s' = s\<lparr>heap := hp\<rparr>"
  then obtain e1 hp where d: "draw_keyframes E (vsettings s) (keyframes s) 0 (heap s) = Inr (e1, hp)"
    and s': "s' = s\<lparr>heap := hp\<rparr>" by blast
  from draw_keyframes_dom [OF d] show ?thesis by (simp add: s' same_registry_def)
qed

lemma upload_images_same: "upload_images s = (es, s') \<Longrightarrow> same_registry s s'"
  by (auto simp: upload_images_def same_registry_def)

lemma update_parameters_same: "update_parameters ui s = (es, s') \<Longrightarrow> same_registry s s'"
  by (auto simp: update_parameters_def same_registry_def Let_def split: if_splits)

lemma reset_internal_inv:
  assumes "registry_inv s" and "reset_internal s = Inr s'"
  shows "registry_inv s'"
proof -
  from assms(2) obtain hp where d: "delete_all (heap s) (keyframes s) = Inr hp"
    and s': "keyframes s' = []" "keyframesByKFID s' = Map.empty" "heap s' = hp"
      "heap_next s' = heap_next s" "currentCam s' = currentCam s"
    by (auto simp: reset_internal_def split: sum.splits)
  note hp = delete_all_result [OF d]
  from assms(1) have "currentCam s \<in> dom hp" "\<forall>p \<in> dom hp. p < heap_next s"
    unfolding registry_inv_def hp by (auto split: if_splits)
  then show ?thesis
    unfolding registry_inv_def s' by simp
qed

lemma run_body_cases:
  assumes "run_body E ui s = Inr (es, s')"
  shows "\<exists>s3. same_registry s s3 \<and> (if needReset s3 then reset_internal s3 = Inr s' else s' = s3)"
proof -
  from assms obtain e1 s1 where 1: "render_3D E s = Inr (e1, s1)"
    by (auto simp: run_body_def bindE_def split: sum.splits)
  obtain e2 s2 where 2: "upload_images s1 = (e2, s2)" by (cases "upload_images s1") auto
  obtain e5 s3 where 3: "update_parameters ui s2 = (e5, s3)" by (cases "update_parameters ui s2") auto
  have "same_registry s s3"
    using render_3D_same [OF 1] upload_images_same [OF 2] update_parameters_same [OF 3]
    by (blast intro: same_registry_trans)
  moreover from assms 1 2 3 have "if needReset s3 then reset_internal s3 = Inr s' else s' = s3"
    by (auto simp: run_body_def bindE_def Let_def split: sum.splits if_splits)
  ultimately show ?thesis by blast
qed

lemma run_iteration_inv:
  assumes "registry_inv s" and "run_iteration E ui s = Inr (es, s')"
  shows "registry_inv s'"
proof -
  from assms(2) have "run_body E ui s = Inr (es, s')"
    by (simp add: run_iteration_def split: if_splits)
  from run_body_cases [OF this] obtain s3 where
    a: "same_registry s s3" and b: "if needReset s3 then reset_internal s3 = Inr s' else s' = s3"
    by blast
  from same_registry_inv [OF assms(1) a] have "registry_inv s3" .
  with b show ?thesis by (auto intro: reset_internal_inv split: if_splits)
qed

lemma do_call_inv:
  assumes "registry_inv s" and "do_call E s c = Inr s'"
  shows "registry_inv s'"
proof (cases c)
  case (PublishGraph x)
  with assms show ?thesis by (auto intro: same_registry_inv publishGraph_same)
next
  case (PublishKeyframes frames final HCalib)
  with assms publishKeyframes_inv [OF assms(1), of E frames final HCalib] show ?thesis by auto
next
  case (PublishCamPose frame HCalib t)
  with assms show ?thesis by (auto intro: same_registry_inv publishCamPose_same)
next
  case (PushLiveFrame img)
  with assms show ?thesis by (auto intro: same_registry_inv pushLiveFrame_same)
next
  case (PushDepthImage img t)
  with assms show ?thesis by (auto intro: same_registry_inv pushDepthImage_same)
next
  case Reset
  with assms show ?thesis by (auto intro: same_registry_inv reset_same)
next
  case Close
  with assms show ?thesis by (auto intro: same_registry_inv close_same)
next
  case (RunIteration ui)
  with assms show ?thesis by (auto intro: run_iteration_inv split: sum.splits)
qed

lemma do_calls_inv:
  assumes "registry_inv s" and "do_calls E s cs = Inr s'"
  shows "registry_inv s'"
  using assms
proof (induction cs arbitrary: s)
  case Nil
  then show ?case by simp
next
  case (Cons c cs)
  from Cons.prems(2) obtain s1 where 1: "do_call E s c = Inr s1" and 2: "do_calls E s1 cs = Inr s'"
    by (auto split: sum.splits)
  from Cons.IH [OF do_call_inv [OF Cons.prems(1) 1] 2] show ?case .
qed

lemma registry_inv_unique_ids:
  assumes "registry_inv s"
  shows "unique_ids s"
proof -
  from assms have d: "distinct (keyframes s)" and r: "set (keyframes s) = ran (keyframesByKFID s)"
    and i: "inj_on (keyframesByKFID s) (dom (keyframesByKFID s))"
    unfolding registry_inv_def by blast+
  have "\<exists>!j. keyframesByKFID s j = Some p" if "p \<in> set (keyframes s)" for p
  proof -
    from that r obtain j where j: "keyframesByKFID s j = Some p" by (auto simp: ran_def)
    moreover have "j' = j" if "keyframesByKFID s j' = Some p" for j'
      using i j that by (auto dest!: inj_onD [where x = j' and y = j])
    ultimately show ?thesis by blast
  qed
  moreover have "p \<in> set (keyframes s)" if "keyframesByKFID s j = Some p" for j p
    using that r by (auto simp: ran_def)
  ultimately show ?thesis using d unfolding unique_ids_def by blast
qed


text \<open>
  C4, as the code has it.  In every state that a sequence of calls reaches from the
  constructor, no two handles of the registry have the same identifier.  In such a state
  publishKeyframes returns, again with no two handles under one identifier.  A batch
  entry whose identifier is registered never adds a handle: with the 3D display on it
  leaves the vector and the map as they are and replaces the object of the registered
  handle by what \<open>setFromKF\<close> makes of it; with the display off it changes nothing.
\<close>

theorem publishKeyframes_unique_ids:
  assumes "do_calls E (PangolinDSOViewer E g vs t0 t1 w0 h0) cs = Inr s"
  shows "unique_ids s
       \<and> (\<forall>frames final HCalib.
             \<exists>s'. publishKeyframes E s frames final HCalib = Inr s' \<and> unique_ids s')
       \<and> (\<forall>fh final HCalib p. keyframesByKFID s (frameID fh) = Some p \<longrightarrow>
             (\<exists>k. heap s p = Some k
                \<and> publishKeyframes E s [fh] final HCalib
                    = Inr (if display3D_off s then s
                           else s\<lparr>heap := (heap s)(p \<mapsto> setFromKF E fh HCalib k)\<rparr>)))"
proof -
  have inv: "registry_inv s"
    using registry_inv_init assms by (rule do_calls_inv)
  have 1: "unique_ids s" using inv by (rule registry_inv_unique_ids)
  have 2: "\<exists>s'. publishKeyframes E s frames final HCalib = Inr s' \<and> unique_ids s'"
    for frames final HCalib
    using publishKeyframes_inv [OF inv, of E frames final HCalib]
    by (blast intro: registry_inv_unique_ids)
  have 3: "\<exists>k. heap s p = Some k
                \<and> publishKeyframes E s [fh] final HCalib
                    = Inr (if display3D_off s then s
                           else s\<lparr>heap := (heap s)(p \<mapsto> setFromKF E fh HCalib k)\<rparr>)"
    if "keyframesByKFID s (frameID fh) = Some p" for fh final HCalib p
  proof -
    from registry_inv_live [OF inv that] obtain k where k: "heap s p = Some k" ..
    from upsert_keyframe_known [OF that k, of E HCalib] k show ?thesis
      by (simp add: publishKeyframes_def)
  qed
  from 1 2 3 show ?thesis by blast
qed

lemma two_batches:
  "case do_calls ext0 viewer0
          [PublishKeyframes [frame0 1 11, frame0 2 12] False (),
           PublishKeyframes [frame0 1 21] False ()] of
     Inl e \<Rightarrow> False
   | Inr s \<Rightarrow> keyframes s = [2, 3]
        \<and> map (keyframesByKFID s) [0, 1, 2, 3] = [None, Some 2, Some 3, None]
        \<and> map (heap s) [1, 2, 3, 4] = [Some 0, Some 21, Some 12, None]"
  by code_simp

theorem publishKeyframes_unique_ids_witness:
  "\<exists>s. do_calls ext0 (PangolinDSOViewer ext0 globals0 vsettings0 tv0 tv0 2 1)
          [PublishKeyframes [frame0 1 11, frame0 2 12] False (),
           PublishKeyframes [frame0 1 21] False ()] = Inr s
      \<and> keyframes s = [2, 3]
      \<and> map (keyframesByKFID s) [0, 1, 2, 3] = [None, Some 2, Some 3, None]
      \<and> map (heap s) [1, 2, 3, 4] = [Some 0, Some 21, Some 12, None]
      \<and> unique_ids s
      \<and> \<not> display3D_off s
      \<and> publishKeyframes ext0 s [frame0 2 32] True ()
           = Inr (s\<lparr>heap := (heap s)(3 \<mapsto> 32)\<rparr>)"
proof -
  from two_batches obtain s where
    s: "do_calls ext0 viewer0
          [PublishKeyframes [frame0 1 11, frame0 2 12] False (),
           PublishKeyframes [frame0 1 21] False ()] = Inr s"
    and f: "keyframes s = [2, 3]"
      "map (keyframesByKFID s) [0, 1, 2, 3] = [None, Some 2, Some 3, None]"
      "map (heap s) [1, 2, 3, 4] = [Some 0, Some 21, Some 12, None]"
    by (auto split: sum.splits)
  have on: "\<not> display3D_off s"
  proof -
    have "case do_calls ext0 viewer0
          [PublishKeyframes [frame0 1 11, frame0 2 12] False (),
           PublishKeyframes [frame0 1 21] False ()] of
        Inl e \<Rightarrow> False | Inr s \<Rightarrow> \<not> display3D_off s"
      by code_simp
    with s show ?thesis by simp
  qed
  from publishKeyframes_unique_ids [OF s [unfolded viewer0_def]] on f
  have "unique_ids s \<and> publishKeyframes ext0 s [frame0 2 32] True ()
           = Inr (s\<lparr>heap := (heap s)(3 \<mapsto> 32)\<rparr>)"
    by (auto simp: frame0_def ext0_def)
  with s f on show ?thesis unfolding viewer0_def by (intro exI [of _ s]) simp
qed

text \<open>
  C4 as stated fails for the update: after the keyframe 1 is registered and the 3D
  display is switched off in the render loop, publishing the keyframe 1 with another
  pose leaves the object of its handle as it was.
\<close>

theorem publishKeyframes_update_counterexample:
  "case do_calls ext0 viewer0
          [PublishKeyframes [frame0 1 11] False (),
           RunIteration (ui0\<lparr>ui_show3D := False\<rparr>),
           PublishKeyframes [frame0 1 21] False ()] of
     Inl e \<Rightarrow> False
   | Inr s \<Rightarrow> keyframes s = [2] \<and> keyframesByKFID s 1 = Some 2 \<and> heap s 2 = Some 11
        \<and> setFromKF ext0 (frame0 1 21) () 11 = 21"
  by code_simp

section \<open>The vector and the map of the registry\<close>

lemma same_handles_init: "same_handles (PangolinDSOViewer E g vs t0 t1 w0 h0)"
  by (simp add: same_handles_def PangolinDSOViewer_def)

lemma same_handles_cong:
  assumes "same_handles s" "keyframes s' = keyframes s" "keyframesByKFID s' = keyframesByKFID s"
  shows "same_handles s'"
  unfolding same_handles_def assms(2,3) using assms(1) unfolding same_handles_def .

lemma same_handles_same: "same_handles s \<Longrightarrow> same_registry s s' \<Longrightarrow> same_handles s'"
  unfolding same_registry_def by (rule same_handles_cong) simp_all

lemma same_handles_insert:
  assumes "same_handles s" and "keyframesByKFID s i = None"
    and "keyframes s' = keyframes s @ [p]" "keyframesByKFID s' = (keyframesByKFID s)(i \<mapsto> p)"
  shows "same_handles s'"
proof -
  from assms(1) have f: "finite (dom (keyframesByKFID s))"
    and r: "set (keyframes s) = ran (keyframesByKFID s)"
    and l: "length (keyframes s) = card (dom (keyframesByKFID s))"
    unfolding same_handles_def by auto
  from assms(2) have n: "i \<notin> dom (keyframesByKFID s)" by auto
  have "ran ((keyframesByKFID s)(i \<mapsto> p)) = insert p (ran (keyframesByKFID s))"
    using assms(2) by simp
  moreover have "card (dom ((keyframesByKFID s)(i \<mapsto> p))) = Suc (card (dom (keyframesByKFID s)))"
    using f n by simp
  ultimately show ?thesis
    unfolding same_handles_def assms(3,4) using f r l by auto
qed

lemma same_handles_clear:
  assumes "keyframes s' = []" "keyframesByKFID s' = Map.empty"
  shows "same_handles s'"
  unfolding same_handles_def assms by simp

lemma upsert_keyframe_same_handles:
  assumes "same_handles s" and "upsert_keyframe E HCalib fh s = Inr s'"
  shows "same_handles s'"
proof (cases "keyframesByKFID s (frameID fh)")
  case None
  from assms(2) [unfolded upsert_keyframe_new [OF None]]
  have "keyframes s' = keyframes s @ [heap_next s]"
    "keyframesByKFID s' = (keyframesByKFID s)(frameID fh \<mapsto> heap_next s)"
    by auto
  with assms(1) None show ?thesis by (rule same_handles_insert)
next
  case (Some p)
  with assms(2) have "keyframes s' = keyframes s" "keyframesByKFID s' = keyframesByKFID s"
    by (auto simp: upsert_keyframe_def split: option.splits)
  with assms(1) show ?thesis by (rule same_handles_cong)
qed

lemma keyframes_loop_same_handles:
  assumes "same_handles s" and "keyframes_loop E HCalib fhs s = Inr s'"
  shows "same_handles s'"
  using assms
proof (induction fhs arbitrary: s)
  case Nil
  then show ?case by simp
next
  case (Cons fh fhs)
  from Cons.prems(2) obtain s1 where 1: "upsert_keyframe E HCalib fh s = Inr s1"
    and 2: "keyframes_loop E HCalib fhs s1 = Inr s'"
    by (auto split: sum.splits)
  from Cons.IH [OF upsert_keyframe_same_handles [OF Cons.prems(1) 1] 2] show ?case .
qed

lemma reset_internal_same_handles: "reset_internal s = Inr s' \<Longrightarrow> same_handles s'"
  by (rule same_handles_clear) (auto simp: reset_internal_def split: sum.splits)

lemma do_call_same_handles:
  assumes "same_handles s" and "do_call E s c = Inr s'"
  shows "same_handles s'"
proof (cases c)
  case (PublishGraph x)
  with assms show ?thesis by (auto intro: same_handles_same publishGraph_same)
next
  case (PublishKeyframes frames final HCalib)
  with assms show ?thesis
    by (auto simp: publishKeyframes_def intro: keyframes_loop_same_handles split: if_splits)
next
  case (PublishCamPose frame HCalib t)
  with assms show ?thesis by (auto intro: same_handles_same publishCamPose_same)
next
  case (PushLiveFrame img)
  with assms show ?thesis by (auto intro: same_handles_same pushLiveFrame_same)
next
  case (PushDepthImage img t)
  with assms show ?thesis by (auto intro: same_handles_same pushDepthImage_same)
next
  case Reset
  with assms show ?thesis by (auto intro: same_handles_same reset_same)
next
  case Close
  with assms show ?thesis by (auto intro: same_handles_same close_same)
next
  case (RunIteration ui)
  with assms obtain es where "run_body E ui s = Inr (es, s')"
    by (auto simp: run_iteration_def split: sum.splits if_splits)
  from run_body_cases [OF this] obtain s3 where
    a: "same_registry s s3" and b: "if needReset s3 then reset_internal s3 = Inr s' else s' = s3"
    by blast
  from same_handles_same [OF assms(1) a] b show ?thesis
    by (auto intro: reset_internal_same_handles split: if_splits)
qed

lemma do_calls_same_handles:
  assumes "same_handles s" and "do_calls E s cs = Inr s'"
  shows "same_handles s'"
  using assms
proof (induction cs arbitrary: s)
  case Nil
  then show ?case by simp
next
  case (Cons c cs)
  from Cons.prems(2) obtain s1 where 1: "do_call E s c = Inr s1" and 2: "do_calls E s1 cs = Inr s'"
    by (auto split: sum.splits)
  from Cons.IH [OF do_call_same_handles [OF Cons.prems(1) 1] 2] show ?case .
qed

text \<open>
  C10.  The vector \<open>keyframes\<close> and the map \<open>keyframesByKFID\<close> hold the same handles and
  have the same size: after the constructor, after any call made in a state where they
  do (a new identifier in publishKeyframes adds its handle to both, reset\_internal in
  the render loop empties both, every other call leaves both alone), and so in every
  state that a sequence of calls reaches from the constructor.
\<close>

theorem registry_same_handles:
  "same_handles (PangolinDSOViewer E g vs t0 t1 w0 h0)
   \<and> (\<forall>s c s'. same_handles s \<and> do_call E s c = Inr s' \<longrightarrow> same_handles s')
   \<and> (\<forall>s fh HCalib s'. same_handles s \<and> upsert_keyframe E HCalib fh s = Inr s' \<longrightarrow> same_handles s')
   \<and> (\<forall>s s'. reset_internal s = Inr s' \<longrightarrow> same_handles s')
   \<and> (\<forall>cs s'. do_calls E (PangolinDSOViewer E g vs t0 t1 w0 h0) cs = Inr s' \<longrightarrow> same_handles s')"
  using same_handles_init [of E g vs t0 t1 w0 h0] do_call_same_handles [where E = E]
    upsert_keyframe_same_handles [where E = E] reset_internal_same_handles
    do_calls_same_handles [OF same_handles_init, where E = E]
  by blast

lemma three_calls:
  "case do_calls ext0 viewer0
          [PublishKeyframes [frame0 1 11, frame0 2 12, frame0 1 13] False (),
           PublishCamPose 5 () (at_ms 100)] of
     Inl e \<Rightarrow> False
   | Inr s \<Rightarrow> keyframes s = [2, 3] \<and> map (keyframesByKFID s) [0, 1, 2, 3] = [None, Some 2, Some 3, None]"
  by code_simp

theorem registry_same_handles_witness:
  "\<exists>s. do_calls ext0 (PangolinDSOViewer ext0 globals0 vsettings0 tv0 tv0 2 1)
          [PublishKeyframes [frame0 1 11, frame0 2 12, frame0 1 13] False (),
           PublishCamPose 5 () (at_ms 100)] = Inr s
      \<and> keyframes s = [2, 3]
      \<and> map (keyframesByKFID s) [0, 1, 2, 3] = [None, Some 2, Some 3, None]
      \<and> same_handles s"
proof -
  from three_calls obtain s where
    s: "do_calls ext0 viewer0
          [PublishKeyframes [frame0 1 11, frame0 2 12, frame0 1 13] False (),
           PublishCamPose 5 () (at_ms 100)] = Inr s"
    and f: "keyframes s = [2, 3]"
      "map (keyframesByKFID s) [0, 1, 2, 3] = [None, Some 2, Some 3, None]"
    by (auto split: sum.splits)
  from registry_same_handles [of ext0 globals0 vsettings0 tv0 tv0 2 1] s [unfolded viewer0_def]
  have "same_handles s" by blast
  with s f show ?thesis unfolding viewer0_def by (intro exI [of _ s]) simp
qed

section \<open>The mutexes in the render loop\<close>

lemma lock_scan_skip:
  assumes "\<forall>e \<in> set xs. \<not> is_lock e \<and> ok held e"
  shows "lock_scan ok held (xs @ ys) = lock_scan ok held ys"
  using assms
proof (induction xs)
  case Nil
  then show ?case by simp
next
  case (Cons e xs)
  then have "\<not> is_lock e" "ok held e" by simp_all
  then have "(case e of Lock m \<Rightarrow> m # held | Unlock m \<Rightarrow> removeAll m held | _ \<Rightarrow> held) = held"
    by (cases e) (simp_all add: is_lock_def)
  with Cons show ?case by simp
qed

lemma model_event_ok:
  "model_event e \<Longrightarrow> \<not> is_lock e \<and> run_discipline [Model3DMutex] e"
  by (cases e) (simp_all add: model_event_def is_lock_def run_discipline_def)

lemma draw_keyframes_events:
  "draw_keyframes E vs ps n hp = Inr (es, hp') \<Longrightarrow> \<forall>e \<in> set es. model_event e"
proof (induction ps arbitrary: n hp es)
  case Nil
  then show ?case by simp
next
  case (Cons p ps)
  from Cons.prems obtain k where k: "hp p = Some k"
    by (auto split: option.splits)
  obtain r k' where rk: "refreshPC E (n < 10) (settings_scaledVarTH vs) (settings_absVarTH vs)
      (settings_pointCloudMode vs) (settings_minRelBS vs) (settings_sparsity vs) k = (r, k')"
    by (cases "refreshPC E (n < 10) (settings_scaledVarTH vs) (settings_absVarTH vs)
      (settings_pointCloudMode vs) (settings_minRelBS vs) (settings_sparsity vs) k") auto
  from Cons.prems k rk obtain es' where
    d: "draw_keyframes E vs ps (n + (if r then 1 else 0)) (hp(p \<mapsto> k')) = Inr (es', hp')"
    and es: "es = (if settings_showKFCameras vs then [DrawCam p] else [])
                  @ [RefreshPC p (n < 10), DrawPC p] @ es'"
    by (auto split: sum.splits)
  from Cons.IH [OF d] show ?case by (auto simp: es model_event_def)
qed

lemma vertex_of_event: "vertex_of E hp p = Inr e \<Longrightarrow> model_event e"
  by (auto simp: vertex_of_def model_event_def split: option.splits)

lemma draw_connections_events:
  "draw_connections E hp sel cs = Inr es \<Longrightarrow> \<forall>e \<in> set es. model_event e"
proof (induction cs arbitrary: es)
  case Nil
  then show ?case by simp
next
  case (Cons c cs)
  show ?case
  proof (cases "gc_to c = 0 \<or> gc_from c = 0 \<or> \<not> sel c")
    case True
    with Cons show ?thesis by simp
  next
    case False
    with Cons.prems obtain a b es' where
      "vertex_of E hp (gc_from c) = Inr a" "vertex_of E hp (gc_to c) = Inr b"
      "draw_connections E hp sel cs = Inr es'" "es = a # b # es'"
      by (auto split: sum.splits)
    with Cons.IH show ?thesis by (auto dest: vertex_of_event)
  qed
qed

lemma draw_trajectory_events:
  "draw_trajectory E hp ps = Inr es \<Longrightarrow> \<forall>e \<in> set es. model_event e"
proof (induction ps arbitrary: es)
  case Nil
  then show ?case by simp
next
  case (Cons p ps)
  from Cons.prems obtain a es' where
    "vertex_of E hp p = Inr a" "draw_trajectory E hp ps = Inr es'" "es = a # es'"
    by (auto split: sum.splits)
  with Cons.IH show ?case by (auto dest: vertex_of_event)
qed

lemma drawConstraints_events:
  assumes "drawConstraints E s = Inr es"
  shows "\<forall>e \<in> set es. model_event e"
proof -
  have m: "model_event (GlLineWidth n)" "model_event (GlBegin q)" "model_event (GlColor3f r g b)"
    "model_event GlEnd" "model_event (GlVertex3f v)" for n q r g b v
    by (simp_all add: model_event_def)
  from assms show ?thesis
    by (auto simp: drawConstraints_def bindE_def m
             dest!: draw_connections_events draw_trajectory_events
             split: sum.splits if_splits)
qed


lemma render_3D_events:
  assumes "render_3D E s = Inr (e1, s1)"
  shows "e1 = [] \<or> (\<exists>mid. e1 = [Activate3D, Lock Model3DMutex] @ mid @ [Unlock Model3DMutex]
                        \<and> (\<forall>e \<in> set mid. model_event e))"
proof (cases "setting_render_display3D (glob s)")
  case False
  with assms show ?thesis by (simp add: render_3D_def)
next
  case True
  with assms obtain es hp cam ds where
    d: "draw_keyframes E (vsettings s) (keyframes s) 0 (heap s) = Inr (es, hp)"
    and c: "cam = [] \<or> cam = [DrawCam (currentCam s)]"
    and ds: "drawConstraints E (s\<lparr>heap := hp\<rparr>) = Inr ds"
    and e1: "e1 = [Activate3D, Lock Model3DMutex] @ es @ cam @ ds @ [Unlock Model3DMutex]"
    by (auto simp: render_3D_def bindE_def split: sum.splits if_splits option.splits)
  have "\<forall>e \<in> set (es @ cam @ ds). model_event e"
    using draw_keyframes_events [OF d] drawConstraints_events [OF ds] c
    by (auto simp: model_event_def)
  with e1 show ?thesis by auto
qed

lemma scan_render_3D:
  assumes "render_3D E s = Inr (e1, s1)"
  shows "lock_scan run_discipline [] (e1 @ rest) = lock_scan run_discipline [] rest"
  using render_3D_events [OF assms]
proof
  assume "e1 = []"
  then show ?thesis by simp
next
  assume "\<exists>mid. e1 = [Activate3D, Lock Model3DMutex] @ mid @ [Unlock Model3DMutex]
                        \<and> (\<forall>e \<in> set mid. model_event e)"
  then obtain mid where e1: "e1 = [Activate3D, Lock Model3DMutex] @ mid @ [Unlock Model3DMutex]"
    and m: "\<forall>e \<in> set mid. model_event e" by blast
  from m have "\<forall>e \<in> set mid. \<not> is_lock e \<and> run_discipline [Model3DMutex] e"
    by (blast dest: model_event_ok)
  from lock_scan_skip [where ok = run_discipline and held = "[Model3DMutex]" and xs = mid
      and ys = "Unlock Model3DMutex # rest", OF this]
  show ?thesis by (simp add: e1 run_discipline_def)
qed

lemma scan_upload_images:
  assumes "upload_images s = (e2, s2)"
  shows "lock_scan run_discipline [] (e2 @ rest) = lock_scan run_discipline [] rest"
proof -
  let ?ups = "(if videoImgChanged s then [Upload TexVideo (internalVideoImg s)] else [])
     @ (if kfImgChanged s then [Upload TexKFDepth (internalKFImg s)] else [])
     @ (if resImgChanged s then [Upload TexResidual (internalResImg s)] else [])"
  from assms have e2: "e2 = [Lock OpenImagesMutex] @ ?ups @ [Unlock OpenImagesMutex]"
    by (auto simp: upload_images_def)
  have "\<forall>e \<in> set ?ups. \<not> is_lock e \<and> run_discipline [OpenImagesMutex] e"
    by (auto simp: is_lock_def run_discipline_def)
  from lock_scan_skip [where ok = run_discipline and held = "[OpenImagesMutex]" and xs = ?ups
      and ys = "Unlock OpenImagesMutex # rest", OF this]
  show ?thesis unfolding e2 by (simp add: run_discipline_def)
qed

lemma scan_update_fps:
  "lock_scan run_discipline [] (update_fps E s @ rest) = lock_scan run_discipline [] rest"
  by (simp add: update_fps_def run_discipline_def)

lemma scan_render_images:
  "lock_scan run_discipline [] (render_images s @ rest) = lock_scan run_discipline [] rest"
  by (rule lock_scan_skip) (auto simp: render_images_def is_lock_def run_discipline_def)

lemma scan_update_parameters:
  assumes "update_parameters ui s = (e5, s3)"
  shows "lock_scan run_discipline [] (e5 @ rest) = lock_scan run_discipline [] rest"
proof (rule lock_scan_skip)
  from assms have "e5 = [] \<or> e5 = [LogWarning, ResetButton]"
    by (auto simp: update_parameters_def Let_def split: if_splits)
  then show "\<forall>e \<in> set e5. \<not> is_lock e \<and> run_discipline [] e"
    by (auto simp: is_lock_def run_discipline_def)
qed

lemma run_body_trace:
  assumes "run_body E ui s = Inr (es, s')"
  shows "\<exists>e1 s1 e2 s2 e5 s3.
           render_3D E s = Inr (e1, s1) \<and> upload_images s1 = (e2, s2)
         \<and> update_parameters ui s2 = (e5, s3)
         \<and> es = [GlClear] @ e1 @ e2 @ update_fps E s2 @ render_images s2 @ e5
                 @ (if needReset s3 then [FinishFrame] @ reset_events else [FinishFrame])
         \<and> (if needReset s3 then reset_internal s3 = Inr s' else s' = s3)"
proof -
  from assms obtain e1 s1 where 1: "render_3D E s = Inr (e1, s1)"
    by (auto simp: run_body_def bindE_def split: sum.splits)
  obtain e2 s2 where 2: "upload_images s1 = (e2, s2)" by (cases "upload_images s1") auto
  obtain e5 s3 where 3: "update_parameters ui s2 = (e5, s3)" by (cases "update_parameters ui s2") auto
  from assms 1 2 3 show ?thesis
    by (auto simp: run_body_def bindE_def Let_def split: sum.splits if_splits)
qed

text \<open>
  C2, as the code has it.  In the trace of every iteration of the render loop that
  returns, a mutex is locked only while none is held and unlocked while it is the one
  held, and none is held at the end; each texture upload happens while
  \<open>openImagesMutex\<close> is held, and each call that draws the 3D model happens while
  \<open>model3DMutex\<close> is held; the calls that render the three textures, the log and the
  end of the frame happen with no mutex held.
\<close>

theorem run_iteration_lock_discipline:
  assumes "run_iteration E ui s = Inr (es, s')"
  shows "lock_scan run_discipline [] es"
proof -
  from assms have "run_body E ui s = Inr (es, s')"
    by (simp add: run_iteration_def split: if_splits)
  from run_body_trace [OF this] obtain e1 s1 e2 s2 e5 s3 where
    1: "render_3D E s = Inr (e1, s1)" and 2: "upload_images s1 = (e2, s2)"
    and 3: "update_parameters ui s2 = (e5, s3)"
    and es: "es = [GlClear] @ e1 @ e2 @ update_fps E s2 @ render_images s2 @ e5
                 @ (if needReset s3 then [FinishFrame] @ reset_events else [FinishFrame])"
    by blast
  show ?thesis
    unfolding es
    by (simp add: run_discipline_def reset_events_def scan_render_3D [OF 1]
          scan_upload_images [OF 2] scan_update_fps scan_render_images
          scan_update_parameters [OF 3])
qed

lemma first_iteration_trace:
  "trace_of (run_iteration ext0 ui0 viewer0) =
     Inr [GlClear, Activate3D, Lock Model3DMutex, DrawCam 1,
          GlLineWidth 3, GlColor3f 0 0 1, GlBegin GL_LINES, GlEnd,
          GlColor3f 1 0 0, GlLineWidth 3, GlBegin GL_LINE_STRIP, GlEnd,
          Unlock Model3DMutex,
          Lock OpenImagesMutex,
          Upload TexVideo [(0, 0, 0), (0, 0, 0)],
          Upload TexKFDepth [(0, 0, 0), (0, 0, 0)],
          Upload TexResidual [(0, 0, 0), (0, 0, 0)],
          Unlock OpenImagesMutex,
          Lock OpenImagesMutex, SetMapFps None, Unlock OpenImagesMutex,
          Lock Model3DMutex, SetTrackFps None, Unlock Model3DMutex,
          ActivateView TexVideo, GlColor4f, RenderToViewportFlipY TexVideo,
          ActivateView TexKFDepth, GlColor4f, RenderToViewportFlipY TexKFDepth,
          FinishFrame]"
  by code_simp

theorem run_iteration_lock_discipline_witness:
  "trace_of (run_iteration ext0 ui0 viewer0) =
     Inr [GlClear, Activate3D, Lock Model3DMutex, DrawCam 1,
          GlLineWidth 3, GlColor3f 0 0 1, GlBegin GL_LINES, GlEnd,
          GlColor3f 1 0 0, GlLineWidth 3, GlBegin GL_LINE_STRIP, GlEnd,
          Unlock Model3DMutex,
          Lock OpenImagesMutex,
          Upload TexVideo [(0, 0, 0), (0, 0, 0)],
          Upload TexKFDepth [(0, 0, 0), (0, 0, 0)],
          Upload TexResidual [(0, 0, 0), (0, 0, 0)],
          Unlock OpenImagesMutex,
          Lock OpenImagesMutex, SetMapFps None, Unlock OpenImagesMutex,
          Lock Model3DMutex, SetTrackFps None, Unlock Model3DMutex,
          ActivateView TexVideo, GlColor4f, RenderToViewportFlipY TexVideo,
          ActivateView TexKFDepth, GlColor4f, RenderToViewportFlipY TexKFDepth,
          FinishFrame]
   \<and> lock_scan run_discipline []
         [GlClear, Activate3D, Lock Model3DMutex, DrawCam (1::nat),
          GlLineWidth 3, GlColor3f 0 0 1, GlBegin GL_LINES, GlEnd,
          GlColor3f 1 0 0, GlLineWidth 3, GlBegin GL_LINE_STRIP, GlEnd,
          Unlock Model3DMutex,
          Lock OpenImagesMutex,
          Upload TexVideo [(0, 0, 0), (0, 0, 0)],
          Upload TexKFDepth [(0, 0, 0), (0, 0, 0)],
          Upload TexResidual [(0, 0, 0), (0, 0, 0)],
          Unlock OpenImagesMutex,
          Lock OpenImagesMutex, SetMapFps None, Unlock OpenImagesMutex,
          Lock Model3DMutex, SetTrackFps None, Unlock Model3DMutex,
          ActivateView TexVideo, GlColor4f, RenderToViewportFlipY TexVideo,
          ActivateView TexKFDepth, GlColor4f, RenderToViewportFlipY TexKFDepth,
          FinishFrame]"
proof -
  from first_iteration_trace obtain s' where
    r: "run_iteration ext0 ui0 viewer0 =
     Inr ([GlClear, Activate3D, Lock Model3DMutex, DrawCam 1,
          GlLineWidth 3, GlColor3f 0 0 1, GlBegin GL_LINES, GlEnd,
          GlColor3f 1 0 0, GlLineWidth 3, GlBegin GL_LINE_STRIP, GlEnd,
          Unlock Model3DMutex,
          Lock OpenImagesMutex,
          Upload TexVideo [(0, 0, 0), (0, 0, 0)],
          Upload TexKFDepth [(0, 0, 0), (0, 0, 0)],
          Upload TexResidual [(0, 0, 0), (0, 0, 0)],
          Unlock OpenImagesMutex,
          Lock OpenImagesMutex, SetMapFps None, Unlock OpenImagesMutex,
          Lock Model3DMutex, SetTrackFps None, Unlock Model3DMutex,
          ActivateView TexVideo, GlColor4f, RenderToViewportFlipY TexVideo,
          ActivateView TexKFDepth, GlColor4f, RenderToViewportFlipY TexKFDepth,
          FinishFrame], s')"
    by (auto simp: trace_of_def split: sum.splits prod.splits)
  from run_iteration_lock_discipline [OF r] first_iteration_trace show ?thesis
    by (simp add: run_discipline_def)
qed

text \<open>
  C2 as stated fails: in the first iteration after the constructor the camera is drawn
  while \<open>model3DMutex\<close> is held and the three textures are uploaded while
  \<open>openImagesMutex\<close> is held.
\<close>

theorem run_iteration_locks_counterexample:
  "trace_of (run_iteration ext0 ui0 viewer0) =
     Inr [GlClear, Activate3D, Lock Model3DMutex, DrawCam 1,
          GlLineWidth 3, GlColor3f 0 0 1, GlBegin GL_LINES, GlEnd,
          GlColor3f 1 0 0, GlLineWidth 3, GlBegin GL_LINE_STRIP, GlEnd,
          Unlock Model3DMutex,
          Lock OpenImagesMutex,
          Upload TexVideo [(0, 0, 0), (0, 0, 0)],
          Upload TexKFDepth [(0, 0, 0), (0, 0, 0)],
          Upload TexResidual [(0, 0, 0), (0, 0, 0)],
          Unlock OpenImagesMutex,
          Lock OpenImagesMutex, SetMapFps None, Unlock OpenImagesMutex,
          Lock Model3DMutex, SetTrackFps None, Unlock Model3DMutex,
          ActivateView TexVideo, GlColor4f, RenderToViewportFlipY TexVideo,
          ActivateView TexKFDepth, GlColor4f, RenderToViewportFlipY TexKFDepth,
          FinishFrame]
   \<and> \<not> lock_scan draws_outside_locks []
         [GlClear, Activate3D, Lock Model3DMutex, DrawCam (1::nat),
          GlLineWidth 3, GlColor3f 0 0 1, GlBegin GL_LINES, GlEnd,
          GlColor3f 1 0 0, GlLineWidth 3, GlBegin GL_LINE_STRIP, GlEnd,
          Unlock Model3DMutex,
          Lock OpenImagesMutex,
          Upload TexVideo [(0, 0, 0), (0, 0, 0)],
          Upload TexKFDepth [(0, 0, 0), (0, 0, 0)],
          Upload TexResidual [(0, 0, 0), (0, 0, 0)],
          Unlock OpenImagesMutex,
          Lock OpenImagesMutex, SetMapFps None, Unlock OpenImagesMutex,
          Lock Model3DMutex, SetTrackFps None, Unlock Model3DMutex,
          ActivateView TexVideo, GlColor4f, RenderToViewportFlipY TexVideo,
          ActivateView TexKFDepth, GlColor4f, RenderToViewportFlipY TexKFDepth,
          FinishFrame]
   \<and> \<not> lock_scan draws_outside_locks []
         [Lock OpenImagesMutex, Upload TexVideo [(0, 0, 0), (0, 0, 0)], Unlock OpenImagesMutex
            :: nat event]"
proof -
  have "trace_of (run_iteration ext0 ui0 viewer0) =
     Inr [GlClear, Activate3D, Lock Model3DMutex, DrawCam 1,
          GlLineWidth 3, GlColor3f 0 0 1, GlBegin GL_LINES, GlEnd,
          GlColor3f 1 0 0, GlLineWidth 3, GlBegin GL_LINE_STRIP, GlEnd,
          Unlock Model3DMutex,
          Lock OpenImagesMutex,
          Upload TexVideo [(0, 0, 0), (0, 0, 0)],
          Upload TexKFDepth [(0, 0, 0), (0, 0, 0)],
          Upload TexResidual [(0, 0, 0), (0, 0, 0)],
          Unlock OpenImagesMutex,
          Lock OpenImagesMutex, SetMapFps None, Unlock OpenImagesMutex,
          Lock Model3DMutex, SetTrackFps None, Unlock Model3DMutex,
          ActivateView TexVideo, GlColor4f, RenderToViewportFlipY TexVideo,
          ActivateView TexKFDepth, GlColor4f, RenderToViewportFlipY TexKFDepth,
          FinishFrame]"
    by code_simp
  then show ?thesis
    by (simp add: draws_outside_locks_def is_draw_or_io_def)
qed

section \<open>The render loop returns\<close>

lemma conn_inv_init: "conn_inv (PangolinDSOViewer E g vs t0 t1 w0 h0)"
  by (simp add: conn_inv_def PangolinDSOViewer_def)

lemma conn_inv_mono:
  assumes "conn_inv s" "connections s' = connections s" "set (keyframes s) \<subseteq> set (keyframes s')"
  shows "conn_inv s'"
  using assms unfolding conn_inv_def by auto

lemma lookup_kf_cases: "lookup_kf m i = 0 \<or> lookup_kf m i \<in> ran m"
  by (auto simp: lookup_kf_def ran_def split: option.splits)

lemma set_resize_vec: "set (resize_vec d n xs) \<subseteq> insert d (set xs)"
  by (auto simp: resize_vec_def dest: in_set_takeD)

lemma publishGraph_conn_inv:
  assumes "registry_inv s" "conn_inv s" "null_default E" "publishGraph E s c = Inr s'"
  shows "conn_inv s'"
proof (cases "display3D_off s")
  case True
  with assms show ?thesis by (simp add: publishGraph_off)
next
  case False
  note eq = publishGraph_on [OF False assms(4)]
  from assms(1) have r: "ran (keyframesByKFID s) = set (keyframes s)"
    unfolding registry_inv_def by simp
  have k: "keyframes s' = keyframes s" by (subst eq) simp
  have c: "connections s' = map (record_for c (keyframesByKFID s)) (retained c)
       @ drop (length (retained c)) (resize_vec (new_GraphConnection E) (length c) (connections s))"
    by (subst eq) simp
  have "(gc_from x = 0 \<or> gc_from x \<in> set (keyframes s))
        \<and> (gc_to x = 0 \<or> gc_to x \<in> set (keyframes s))" if "x \<in> set (connections s')" for x
  proof -
    from that c consider p where "x = record_for c (keyframesByKFID s) p"
      | "x \<in> set (resize_vec (new_GraphConnection E) (length c) (connections s))"
      by (auto dest: in_set_dropD)
    then show ?thesis
    proof cases
      case 1
      then show ?thesis
        using lookup_kf_cases [of "keyframesByKFID s"] by (auto simp: record_for_def Let_def r)
    next
      case 2
      with set_resize_vec have "x = new_GraphConnection E \<or> x \<in> set (connections s)" by fastforce
      with assms(2,3) show ?thesis by (auto simp: conn_inv_def null_default_def)
    qed
  qed
  then show ?thesis unfolding conn_inv_def k by blast
qed

lemma upsert_keyframe_conn:
  assumes "upsert_keyframe E HCalib fh s = Inr s'"
  shows "connections s' = connections s \<and> set (keyframes s) \<subseteq> set (keyframes s')"
  using assms
  by (auto simp: upsert_keyframe_def Let_def split: option.splits)

lemma keyframes_loop_conn:
  assumes "keyframes_loop E HCalib fhs s = Inr s'"
  shows "connections s' = connections s \<and> set (keyframes s) \<subseteq> set (keyframes s')"
  using assms
proof (induction fhs arbitrary: s)
  case Nil
  then show ?case by simp
next
  case (Cons fh fhs)
  from Cons.prems obtain s1 where 1: "upsert_keyframe E HCalib fh s = Inr s1"
    and 2: "keyframes_loop E HCalib fhs s1 = Inr s'"
    by (auto split: sum.splits)
  from upsert_keyframe_conn [OF 1] Cons.IH [OF 2] show ?case by auto
qed

lemma publishCamPose_connections: "publishCamPose E s frame HCalib t = Inr s' \<Longrightarrow> connections s' = connections s"
  by (auto simp: publishCamPose_def Let_def split: if_splits option.splits)

lemma pushLiveFrame_connections: "pushLiveFrame E s img = Inr s' \<Longrightarrow> connections s' = connections s"
  by (auto simp: pushLiveFrame_def split: if_splits sum.splits)

lemma pushDepthImage_connections: "pushDepthImage E s img t = Inr s' \<Longrightarrow> connections s' = connections s"
  by (auto simp: pushDepthImage_def Let_def split: if_splits)

lemma render_3D_connections: "render_3D E s = Inr (es, s') \<Longrightarrow> connections s' = connections s"
  using render_3D_cases by fastforce

lemma same_conn_inv:
  assumes "conn_inv s" "same_registry s s'" "connections s' = connections s"
  shows "conn_inv s'"
  using assms unfolding conn_inv_def same_registry_def by simp

lemma run_body_conn_inv:
  assumes "conn_inv s" and "run_body E ui s = Inr (es, s')"
  shows "conn_inv s'"
proof -
  from run_body_trace [OF assms(2)] obtain e1 s1 e2 s2 e5 s3 where
    1: "render_3D E s = Inr (e1, s1)" and 2: "upload_images s1 = (e2, s2)"
    and 3: "update_parameters ui s2 = (e5, s3)"
    and 4: "if needReset s3 then reset_internal s3 = Inr s' else s' = s3"
    by blast
  have c1: "conn_inv s1"
    using assms(1) render_3D_same [OF 1] render_3D_connections [OF 1] by (rule same_conn_inv)
  have "connections s2 = connections s1"
    using 2 by (auto simp: upload_images_def)
  with c1 upload_images_same [OF 2] have c2: "conn_inv s2" by (rule same_conn_inv)
  have "connections s3 = connections s2"
    using 3 by (auto simp: update_parameters_def Let_def split: if_splits)
  with c2 update_parameters_same [OF 3] have c3: "conn_inv s3" by (rule same_conn_inv)
  show ?thesis
  proof (cases "needReset s3")
    case True
    with 4 have "connections s' = []"
      by (auto simp: reset_internal_def split: sum.splits)
    then show ?thesis by (simp add: conn_inv_def)
  next
    case False
    with 4 c3 show ?thesis by simp
  qed
qed

lemma do_call_conn_inv:
  assumes "registry_inv s" "conn_inv s" "null_default E" and "do_call E s c = Inr s'"
  shows "conn_inv s'"
proof (cases c)
  case (PublishGraph x)
  with assms show ?thesis by (auto intro: publishGraph_conn_inv)
next
  case (PublishKeyframes frames final HCalib)
  with assms(4) have "s' = s \<or> keyframes_loop E HCalib frames s = Inr s'"
    by (auto simp: publishKeyframes_def split: if_splits)
  with assms(2) show ?thesis
    by (auto dest!: keyframes_loop_conn intro: conn_inv_mono)
next
  case (PublishCamPose frame HCalib t)
  with assms show ?thesis
    by (auto intro: same_conn_inv publishCamPose_same publishCamPose_connections)
next
  case (PushLiveFrame img)
  with assms show ?thesis
    by (auto intro: same_conn_inv pushLiveFrame_same pushLiveFrame_connections)
next
  case (PushDepthImage img t)
  with assms show ?thesis
    by (auto intro: same_conn_inv pushDepthImage_same pushDepthImage_connections)
next
  case Reset
  with assms show ?thesis by (auto simp: reset_def conn_inv_def)
next
  case Close
  with assms show ?thesis by (auto simp: close_viewer_def conn_inv_def)
next
  case (RunIteration ui)
  with assms obtain es where "run_body E ui s = Inr (es, s')"
    by (auto simp: run_iteration_def split: sum.splits if_splits)
  with assms(2) show ?thesis by (rule run_body_conn_inv)
qed

lemma do_calls_invs:
  assumes "registry_inv s" "conn_inv s" "null_default E" and "do_calls E s cs = Inr s'"
  shows "registry_inv s' \<and> conn_inv s'"
  using assms
proof (induction cs arbitrary: s)
  case Nil
  then show ?case by simp
next
  case (Cons c cs)
  from Cons.prems(4) obtain s1 where 1: "do_call E s c = Inr s1" and 2: "do_calls E s1 cs = Inr s'"
    by (auto split: sum.splits)
  from Cons.IH [OF do_call_inv [OF Cons.prems(1) 1]
      do_call_conn_inv [OF Cons.prems(1,2,3) 1] Cons.prems(3) 2]
  show ?case .
qed

lemma draw_keyframes_total:
  assumes "set ps \<subseteq> dom hp"
  shows "\<exists>es hp'. draw_keyframes E vs ps n hp = Inr (es, hp')"
  using assms
proof (induction ps arbitrary: n hp)
  case Nil
  then show ?case by simp
next
  case (Cons p ps)
  from Cons.prems obtain k where k: "hp p = Some k" by auto
  obtain r k' where rk: "refreshPC E (n < 10) (settings_scaledVarTH vs) (settings_absVarTH vs)
      (settings_pointCloudMode vs) (settings_minRelBS vs) (settings_sparsity vs) k = (r, k')"
    by (cases "refreshPC E (n < 10) (settings_scaledVarTH vs) (settings_absVarTH vs)
      (settings_pointCloudMode vs) (settings_minRelBS vs) (settings_sparsity vs) k") auto
  have "set ps \<subseteq> dom (hp(p \<mapsto> k'))" using Cons.prems by auto
  from Cons.IH [OF this, of "n + (if r then 1 else 0)"] obtain es hp' where
    "draw_keyframes E vs ps (n + (if r then 1 else 0)) (hp(p \<mapsto> k')) = Inr (es, hp')" by blast
  with k rk show ?case by simp
qed

lemma vertex_of_total: "p \<in> dom hp \<Longrightarrow> \<exists>e. vertex_of E hp p = Inr e"
  by (auto simp: vertex_of_def)

lemma draw_connections_total:
  assumes "\<forall>c \<in> set cs. (gc_from c = 0 \<or> gc_from c \<in> dom hp) \<and> (gc_to c = 0 \<or> gc_to c \<in> dom hp)"
  shows "\<exists>es. draw_connections E hp sel cs = Inr es"
  using assms
proof (induction cs)
  case Nil
  then show ?case by simp
next
  case (Cons c cs)
  then obtain es where es: "draw_connections E hp sel cs = Inr es" by auto
  show ?case
  proof (cases "gc_to c = 0 \<or> gc_from c = 0 \<or> \<not> sel c")
    case True
    with es show ?thesis by simp
  next
    case False
    with Cons.prems have "gc_from c \<in> dom hp" "gc_to c \<in> dom hp" by auto
    then obtain a b where "vertex_of E hp (gc_from c) = Inr a" "vertex_of E hp (gc_to c) = Inr b"
      using vertex_of_total by metis
    with False es show ?thesis by simp
  qed
qed

lemma draw_trajectory_total:
  assumes "set ps \<subseteq> dom hp"
  shows "\<exists>es. draw_trajectory E hp ps = Inr es"
  using assms
proof (induction ps)
  case Nil
  then show ?case by simp
next
  case (Cons p ps)
  then obtain es where es: "draw_trajectory E hp ps = Inr es" by auto
  from Cons.prems obtain a where "vertex_of E hp p = Inr a"
    using vertex_of_total [of p hp E] by auto
  with es show ?case by simp
qed

lemma drawConstraints_total:
  assumes "set (keyframes s) \<subseteq> dom (heap s)" "conn_inv s"
  shows "\<exists>es. drawConstraints E s = Inr es"
proof -
  from assms have "\<forall>c \<in> set (connections s).
      (gc_from c = 0 \<or> gc_from c \<in> dom (heap s)) \<and> (gc_to c = 0 \<or> gc_to c \<in> dom (heap s))"
    unfolding conn_inv_def by blast
  from draw_connections_total [OF this, of E sel_marginalized]
       draw_connections_total [OF this, of E sel_active]
       draw_trajectory_total [OF assms(1), of E]
  obtain a b c where "draw_connections E (heap s) sel_marginalized (connections s) = Inr a"
    "draw_connections E (heap s) sel_active (connections s) = Inr b"
    "draw_trajectory E (heap s) (keyframes s) = Inr c" by blast
  then show ?thesis by (simp add: drawConstraints_def bindE_def)
qed

lemma render_3D_total:
  assumes "registry_inv s" "conn_inv s"
  shows "\<exists>es s'. render_3D E s = Inr (es, s')"
proof (cases "setting_render_display3D (glob s)")
  case False
  then show ?thesis by (simp add: render_3D_def)
next
  case True
  from assms(1) have live: "set (keyframes s) \<subseteq> dom (heap s)" and cc: "currentCam s \<in> dom (heap s)"
    unfolding registry_inv_def by blast+
  from draw_keyframes_total [OF live, of E "vsettings s" 0] obtain es hp where
    d: "draw_keyframes E (vsettings s) (keyframes s) 0 (heap s) = Inr (es, hp)" by blast
  note dm = draw_keyframes_dom [OF d]
  from cc dm obtain k where k: "hp (currentCam s) = Some k" by auto
  have "\<exists>ds. drawConstraints E (s\<lparr>heap := hp\<rparr>) = Inr ds"
    by (rule drawConstraints_total) (use live dm assms(2) in \<open>auto simp: conn_inv_def\<close>)
  then obtain ds where "drawConstraints E (s\<lparr>heap := hp\<rparr>) = Inr ds" ..
  with True d k show ?thesis by (simp add: render_3D_def bindE_def)
qed

lemma reset_internal_total:
  assumes "registry_inv s"
  shows "\<exists>s'. reset_internal s = Inr s'"
proof -
  from assms have "distinct (keyframes s)" "\<forall>p \<in> set (keyframes s). p \<noteq> 0 \<longrightarrow> p \<in> dom (heap s)"
    unfolding registry_inv_def by blast+
  from delete_all_total [OF this] show ?thesis
    by (auto simp: reset_internal_def)
qed

lemma run_body_total:
  assumes "registry_inv s" "conn_inv s"
  shows "\<exists>es s'. run_body E ui s = Inr (es, s')"
proof -
  from render_3D_total [OF assms, of E] obtain e1 s1 where 1: "render_3D E s = Inr (e1, s1)" by blast
  obtain e2 s2 where 2: "upload_images s1 = (e2, s2)" by (cases "upload_images s1") auto
  obtain e5 s3 where 3: "update_parameters ui s2 = (e5, s3)" by (cases "update_parameters ui s2") auto
  have "same_registry s s3"
    using render_3D_same [OF 1] upload_images_same [OF 2] update_parameters_same [OF 3]
    by (blast intro: same_registry_trans)
  from same_registry_inv [OF assms(1) this] have "registry_inv s3" .
  from reset_internal_total [OF this] obtain s4 where "reset_internal s3 = Inr s4" ..
  with 1 2 3 show ?thesis by (simp add: run_body_def bindE_def Let_def)
qed


section \<open>Requesting a reset\<close>

lemma render_3D_needReset: "render_3D E s = Inr (es, s') \<Longrightarrow> needReset s' = needReset s"
  using render_3D_cases by fastforce

lemma run_body_needReset:
  assumes "run_body E ui s = Inr (es, s')"
  shows "\<not> needReset s'
       \<and> (if needReset s
          then \<exists>es0 s3. es = es0 @ [FinishFrame] @ reset_events \<and> needReset s3
                 \<and> reset_internal s3 = Inr s'
          else \<exists>es0. es = es0 @ [FinishFrame])"
proof -
  from run_body_trace [OF assms] obtain e1 s1 e2 s2 e5 s3 where
    1: "render_3D E s = Inr (e1, s1)" and 2: "upload_images s1 = (e2, s2)"
    and 3: "update_parameters ui s2 = (e5, s3)"
    and es: "es = [GlClear] @ e1 @ e2 @ update_fps E s2 @ render_images s2 @ e5
                 @ (if needReset s3 then [FinishFrame] @ reset_events else [FinishFrame])"
    and 4: "if needReset s3 then reset_internal s3 = Inr s' else s' = s3"
    by blast
  have "needReset s2 = needReset s1" using 2 by (auto simp: upload_images_def)
  moreover have "needReset s3 = needReset s2"
    using 3 by (auto simp: update_parameters_def Let_def split: if_splits)
  ultimately have n: "needReset s3 = needReset s"
    using render_3D_needReset [OF 1] by simp
  show ?thesis
  proof (cases "needReset s")
    case True
    with n 4 have r: "reset_internal s3 = Inr s'" by simp
    then have a: "\<not> needReset s'" by (auto simp: reset_internal_def split: sum.splits)
    from es n True
    have "es = ([GlClear] @ e1 @ e2 @ update_fps E s2 @ render_images s2 @ e5)
                 @ [FinishFrame] @ reset_events" by simp
    with True n r have "\<exists>es0 s3. es = es0 @ [FinishFrame] @ reset_events \<and> needReset s3
                 \<and> reset_internal s3 = Inr s'" by blast
    with a True show ?thesis by simp
  next
    case False
    with n 4 have a: "\<not> needReset s'" by simp
    from es n False
    have "es = ([GlClear] @ e1 @ e2 @ update_fps E s2 @ render_images s2 @ e5) @ [FinishFrame]"
      by simp
    then have "\<exists>es0. es = es0 @ [FinishFrame]" by blast
    with a False show ?thesis by simp
  qed
qed

text \<open>
  C8.  A second \<open>reset()\<close> before the render loop has looked changes nothing: the state
  is the one after the first, the pending flag is set, and the next iteration of the
  loop is the same in both cases.  When that iteration returns, it has run
  reset\_internal once, after the end of the frame, and the flag is cleared; an iteration
  after it ends with the end of the frame and resets nothing.  The iteration does return
  in every state that calls reach from the constructor (the value-initialised
  GraphConnection having null endpoints), as long as the loop is running.
\<close>

theorem reset_twice_is_once:
  "reset (reset s) = reset s
   \<and> needReset (reset s)
   \<and> run_iteration E ui (reset (reset s)) = run_iteration E ui (reset s)
   \<and> (\<forall>es s'. run_iteration E ui (reset s) = Inr (es, s') \<longrightarrow>
         \<not> needReset s'
         \<and> (\<exists>es0 s3. es = es0 @ [FinishFrame] @ reset_events \<and> needReset s3
                \<and> reset_internal s3 = Inr s')
         \<and> (\<forall>ui' es' s''. run_iteration E ui' s' = Inr (es', s'') \<longrightarrow>
                (\<exists>es1. es' = es1 @ [FinishFrame]) \<and> \<not> needReset s''))
   \<and> ((\<exists>cs. do_calls E (PangolinDSOViewer E g vs t0 t1 w0 h0) cs = Inr s)
        \<and> null_default E \<and> \<not> ui_ShouldQuit ui \<and> running s
        \<longrightarrow> (\<exists>es s'. run_iteration E ui (reset s) = Inr (es, s')))"
proof -
  have 1: "reset (reset s) = reset s" by (simp add: reset_def)
  have 2: "needReset (reset s)" by (simp add: reset_def)
  have 3: "run_iteration E ui (reset (reset s)) = run_iteration E ui (reset s)"
    by (simp only: 1)
  have 4: "\<not> needReset s'
         \<and> (\<exists>es0 s3. es = es0 @ [FinishFrame] @ reset_events \<and> needReset s3
                \<and> reset_internal s3 = Inr s')
         \<and> (\<forall>ui' es' s''. run_iteration E ui' s' = Inr (es', s'') \<longrightarrow>
                (\<exists>es1. es' = es1 @ [FinishFrame]) \<and> \<not> needReset s'')"
    if r: "run_iteration E ui (reset s) = Inr (es, s')" for es s'
  proof -
    from r have "run_body E ui (reset s) = Inr (es, s')"
      by (simp add: run_iteration_def split: if_splits)
    from run_body_needReset [OF this] 2
    have a: "\<not> needReset s'" and b: "\<exists>es0 s3. es = es0 @ [FinishFrame] @ reset_events
        \<and> needReset s3 \<and> reset_internal s3 = Inr s'"
      by simp_all
    have "(\<exists>es1. es' = es1 @ [FinishFrame]) \<and> \<not> needReset s''"
      if "run_iteration E ui' s' = Inr (es', s'')" for ui' es' s''
    proof -
      from that have "run_body E ui' s' = Inr (es', s'')"
        by (simp add: run_iteration_def split: if_splits)
      from run_body_needReset [OF this] a show ?thesis by simp
    qed
    with a b show ?thesis by blast
  qed
  have 5: "\<exists>es s'. run_iteration E ui (reset s) = Inr (es, s')"
    if "\<exists>cs. do_calls E (PangolinDSOViewer E g vs t0 t1 w0 h0) cs = Inr s"
      "null_default E" "\<not> ui_ShouldQuit ui" "running s"
  proof -
    from that(1) obtain cs where "do_calls E (PangolinDSOViewer E g vs t0 t1 w0 h0) cs = Inr s" ..
    from do_calls_invs [OF registry_inv_init conn_inv_init that(2) this]
    have i: "registry_inv s" and c: "conn_inv s" by simp_all
    from i reset_same have i': "registry_inv (reset s)" by (rule same_registry_inv)
    from c have c': "conn_inv (reset s)" by (simp add: conn_inv_def reset_def)
    from run_body_total [OF i' c', of E ui] that(3,4) show ?thesis
      by (simp add: run_iteration_def reset_def)
  qed
  from 1 2 3 4 5 show ?thesis by blast
qed

lemma reset_scenario:
  "case do_calls ext0 viewer0
          [PublishKeyframes [frame0 1 11, frame0 2 12] False (), PublishGraph conn12,
           PublishCamPose 5 () (at_ms 100)] of
     Inl e \<Rightarrow> False
   | Inr s \<Rightarrow> running s \<and> keyframes s = [2, 3] \<and> length (connections s) = 2
        \<and> allFramePoses s = [5]
        \<and> (case run_iteration ext0 ui0 (reset (reset s)) of
             Inl e \<Rightarrow> False
           | Inr (es, s') \<Rightarrow> keyframes s' = [] \<and> connections s' = [] \<and> allFramePoses s' = []
                \<and> \<not> needReset s'
                \<and> drop (length es - 5) es = [FinishFrame] @ reset_events)"
  by code_simp

theorem reset_twice_is_once_witness:
  "\<exists>s. do_calls ext0 (PangolinDSOViewer ext0 globals0 vsettings0 tv0 tv0 2 1)
          [PublishKeyframes [frame0 1 11, frame0 2 12] False (), PublishGraph conn12,
           PublishCamPose 5 () (at_ms 100)] = Inr s
      \<and> null_default ext0 \<and> \<not> ui_ShouldQuit ui0 \<and> running s
      \<and> keyframes s = [2, 3] \<and> length (connections s) = 2 \<and> allFramePoses s = [5]
      \<and> reset (reset s) = reset s
      \<and> (\<exists>es s'. run_iteration ext0 ui0 (reset (reset s)) = Inr (es, s')
            \<and> run_iteration ext0 ui0 (reset s) = Inr (es, s')
            \<and> keyframes s' = [] \<and> connections s' = [] \<and> allFramePoses s' = []
            \<and> \<not> needReset s'
            \<and> drop (length es - 5) es = [FinishFrame] @ reset_events)"
proof -
  from reset_scenario obtain s es s' where
    s: "do_calls ext0 viewer0
          [PublishKeyframes [frame0 1 11, frame0 2 12] False (), PublishGraph conn12,
           PublishCamPose 5 () (at_ms 100)] = Inr s"
    and f: "running s" "keyframes s = [2, 3]" "length (connections s) = 2" "allFramePoses s = [5]"
    and r: "run_iteration ext0 ui0 (reset (reset s)) = Inr (es, s')"
    and g: "keyframes s' = []" "connections s' = []" "allFramePoses s' = []" "\<not> needReset s'"
      "drop (length es - 5) es = [FinishFrame] @ reset_events"
    by (auto split: sum.splits prod.splits)
  have n: "null_default ext0" by (simp add: null_default_def ext0_def)
  have q: "\<not> ui_ShouldQuit ui0" by (simp add: ui0_def)
  note t = reset_twice_is_once [of s ext0 ui0 globals0 vsettings0 tv0 tv0 2 1]
  from t have e: "reset (reset s) = reset s" by blast
  from t r have r1: "run_iteration ext0 ui0 (reset s) = Inr (es, s')" by simp
  from r r1 g have x: "\<exists>es s'. run_iteration ext0 ui0 (reset (reset s)) = Inr (es, s')
            \<and> run_iteration ext0 ui0 (reset s) = Inr (es, s')
            \<and> keyframes s' = [] \<and> connections s' = [] \<and> allFramePoses s' = []
            \<and> \<not> needReset s'
            \<and> drop (length es - 5) es = [FinishFrame] @ reset_events"
    by blast
  from s f n q e x show ?thesis
    unfolding viewer0_def by (intro exI [of _ s] conjI) assumption+
qed

section \<open>The latency windows in the states the viewer reaches\<close>











end
